theory Spec2Isabelle
  imports Main "HOL-Library.Word"
begin

unbundle bit_operations_syntax

section \<open>Machine types and constants\<close>

type_synonym u64 = "64 word"
type_synonym domainid_t = "64 word"

text \<open>Modelled from the spec: the page-size constants of \<open>microv/gpalayout.h\<close> and the
  page-table shifts \<open>::x64::pt::from\<close>, \<open>::x64::pd::from\<close> are not part of the sources at
  hand; the spec fixes pages of 4K and large pages of 2M.\<close>

definition UV_PAGE_FROM :: nat where
  "UV_PAGE_FROM = 12"

definition UV_PAGE_SIZE :: u64 where
  "UV_PAGE_SIZE = 0x1000"

definition pt_from :: nat where
  "pt_from = 12"

definition pd_from :: nat where
  "pd_from = 21"

text \<open>Modelled from the spec: \<open>bfn::upper(ptr, from)\<close> rounds an address down to a
  multiple of \<open>2 ^ from\<close> (the "rounded-down", "4K-aligned" address of the spec).\<close>

definition upper :: "u64 \<Rightarrow> nat \<Rightarrow> u64" where
  "upper ptr from = ptr AND NOT (push_bit from 1 - 1)"

text \<open>The status codes returned through the hypercall boundary. The spec names three
  distinguishable results: success, hard failure and the retryable "again".\<close>

datatype status = SUCCESS | FAILURE | AGAIN

text \<open>An operation either returns a status or is aborted by a violated contract
  (\<open>expects\<close>), which the spec classes as a fatal error.\<close>

datatype outcome = Returned status | Contract_violation

section \<open>Donated-page intervals\<close>

record page_range =
  m_page_start :: u64
  m_page_count :: u64

text \<open>Modelled from the spec: the member functions of \<open>struct page_range\<close> are declared
  in \<open>hve/arch/intel_x64/domain.h\<close>, which is not among the sources. The spec gives the
  interval as \<open>{start, count}\<close> and classifies an address as bottom (equals start), top
  (equals start + count - 1 page), middle (strictly interior) or not contained; an interval
  is contiguous below an address when its first page after the end is that address and
  contiguous above it when its start is the page after the address. All arithmetic is on
  \<open>uint64_t\<close>, as the fields are.\<close>

definition limit :: "page_range \<Rightarrow> u64" where
  "limit r = m_page_start r + m_page_count r * UV_PAGE_SIZE"

definition contains :: "page_range \<Rightarrow> u64 \<Rightarrow> bool" where
  "contains r page_gpa \<longleftrightarrow> m_page_start r \<le> page_gpa \<and> page_gpa < limit r"

definition contiguous_below :: "page_range \<Rightarrow> u64 \<Rightarrow> bool" where
  "contiguous_below r page_gpa \<longleftrightarrow> page_gpa = limit r"

definition contiguous_above :: "page_range \<Rightarrow> u64 \<Rightarrow> bool" where
  "contiguous_above r page_gpa \<longleftrightarrow> page_gpa + UV_PAGE_SIZE = m_page_start r"

definition bottom_page :: "page_range \<Rightarrow> u64 \<Rightarrow> bool" where
  "bottom_page r page_gpa \<longleftrightarrow> page_gpa = m_page_start r"

definition top_page :: "page_range \<Rightarrow> u64 \<Rightarrow> bool" where
  "top_page r page_gpa \<longleftrightarrow> page_gpa = limit r - UV_PAGE_SIZE"

definition middle_page :: "page_range \<Rightarrow> u64 \<Rightarrow> bool" where
  "middle_page r page_gpa \<longleftrightarrow> m_page_start r < page_gpa \<and> page_gpa < limit r - UV_PAGE_SIZE"

section \<open>The ordered interval set\<close>

text \<open>A \<open>page_range_set\<close> is a \<open>std::set\<close> of intervals. It is modelled by the list of its
  elements in iteration order; an iterator is an index into that list and \<open>end()\<close> is the
  length of the list.

  Modelled from the spec: the comparator of the set is declared in the missing header; the
  spec says the set is keyed and ordered by interval start address, "to allow
  predecessor/lower-bound lookup". So \<open>lower_bound(gpa)\<close> is the first interval whose start
  is not below \<open>gpa\<close>, and \<open>emplace\<close> puts a new interval at its place in the order unless
  an interval with the same start is present.\<close>

type_synonym page_range_set = "page_range list"

definition lower_bound :: "page_range_set \<Rightarrow> u64 \<Rightarrow> nat" where
  "lower_bound range_set page_gpa =
     length (takeWhile (\<lambda>r. m_page_start r < page_gpa) range_set)"

definition emplace :: "page_range_set \<Rightarrow> u64 \<Rightarrow> u64 \<Rightarrow> page_range_set" where
  "emplace range_set s c =
     (if \<exists>r \<in> set range_set. m_page_start r = s then range_set
      else takeWhile (\<lambda>r. m_page_start r < s) range_set
           @ \<lparr>m_page_start = s, m_page_count = c\<rparr>
           # dropWhile (\<lambda>r. m_page_start r < s) range_set)"

definition erase :: "page_range_set \<Rightarrow> nat \<Rightarrow> page_range_set" where
  "erase range_set i = take i range_set @ drop (Suc i) range_set"

definition find_page_range :: "page_range_set \<Rightarrow> u64 \<Rightarrow> nat" where
  "find_page_range range_set page_gpa =
     (if range_set = [] then length range_set
      else
        let rng = lower_bound range_set page_gpa in
        if rng = 0 then
          (if contains (range_set ! rng) page_gpa then rng else length range_set)
        else if rng = length range_set then
          (if contains (range_set ! (rng - 1)) page_gpa then rng - 1
           else length range_set)
        else if contains (range_set ! rng) page_gpa then rng
        else if contains (range_set ! (rng - 1)) page_gpa then rng - 1
        else length range_set)"

definition extend_page_range_above :: "page_range_set \<Rightarrow> nat \<Rightarrow> page_range_set" where
  "extend_page_range_above range_set rng =
     range_set[rng := (range_set ! rng)
       \<lparr>m_page_count := m_page_count (range_set ! rng) + 1\<rparr>]"

definition extend_page_range_below :: "page_range_set \<Rightarrow> nat \<Rightarrow> page_range_set" where
  "extend_page_range_below range_set rng =
     range_set[rng := (range_set ! rng)
       \<lparr>m_page_start := m_page_start (range_set ! rng) - UV_PAGE_SIZE,
        m_page_count := m_page_count (range_set ! rng) + 1\<rparr>]"

text \<open>The body of \<open>domain::add_page_to_donated_range\<close> once the borrower's set is at
  hand.\<close>

definition add_page_to_range_set :: "page_range_set \<Rightarrow> u64 \<Rightarrow> page_range_set" where
  "add_page_to_range_set range_set page_gpa =
     (if range_set = [] then emplace range_set page_gpa 1
      else
        let rng = lower_bound range_set page_gpa in
        if rng = length range_set then
          (if contiguous_below (range_set ! (rng - 1)) page_gpa
           then extend_page_range_above range_set (rng - 1)
           else emplace range_set page_gpa 1)
        else if contiguous_above (range_set ! rng) page_gpa
        then extend_page_range_below range_set rng
        else if rng \<noteq> 0 \<and> contiguous_below (range_set ! (rng - 1)) page_gpa
        then extend_page_range_above range_set (rng - 1)
        else emplace range_set page_gpa 1)"

text \<open>The body of \<open>domain::remove_page_from_donated_range\<close> once the borrower's set is at
  hand. The order of the tests is the source's: top, middle, bottom.\<close>

definition remove_page_from_range_set :: "page_range_set \<Rightarrow> u64 \<Rightarrow> page_range_set" where
  "remove_page_from_range_set range_set page_gpa =
     (let rng = find_page_range range_set page_gpa in
      if rng = length range_set then range_set
      else
        let r = range_set ! rng in
        if top_page r page_gpa then
          (if m_page_count r = 1 then erase range_set rng
           else range_set[rng := r\<lparr>m_page_count := m_page_count r - 1\<rparr>])
        else if middle_page r page_gpa then
          (let upper_start = page_gpa + UV_PAGE_SIZE;
               upper_count = drop_bit UV_PAGE_FROM (limit r - upper_start);
               lower_start = m_page_start r;
               lower_count = drop_bit UV_PAGE_FROM (page_gpa - lower_start)
           in emplace (emplace (erase range_set rng) upper_start upper_count)
                lower_start lower_count)
        else if bottom_page r page_gpa then
          (if m_page_count r = 1 then erase range_set rng
           else range_set[rng := r\<lparr>m_page_start := m_page_start r + UV_PAGE_SIZE,
                                     m_page_count := m_page_count r - 1\<rparr>])
        else range_set)"

section \<open>Collaborators of the domain\<close>

text \<open>Modelled from the spec: the address-translation map (\<open>ept::mmap\<close>) belongs to the
  hypervisor base the repository builds on and is not among the sources. The spec gives
  its contract: \<open>map\<close> installs or replaces the translation of a page with a permission and
  a memory type, \<open>unmap\<close> marks the entry not present, a large page is converted to 4K
  pages keeping the translations of all its pages, and the table can be flushed as a whole.
  The map is kept per 4K page; each entry records the size of the mapping that covers it
  (as the shift \<open>from\<close>). The number of whole-table flushes is counted. The address checks
  of the layer are not part of the model: the spec leaves the validation of addresses to
  the callers.\<close>

datatype attr_type = read_only | read_write | read_write_execute

datatype memory_type = write_back | write_combining | uncacheable

record ept_entry =
  e_hpa :: u64
  e_attr :: attr_type
  e_cache :: memory_type
  e_from :: nat

record mmap =
  entries :: "u64 \<rightharpoonup> ept_entry"
  iommu_coherence :: bool
  iommu_snoop_ctl :: bool
  flushes :: nat

definition map_4k :: "mmap \<Rightarrow> u64 \<Rightarrow> u64 \<Rightarrow> attr_type \<Rightarrow> memory_type \<Rightarrow> mmap" where
  "map_4k mm gpa hpa attr cache =
     mm\<lparr>entries := (entries mm)(gpa \<mapsto>
       \<lparr>e_hpa = hpa, e_attr = attr, e_cache = cache, e_from = pt_from\<rparr>)\<rparr>"

definition mmap_unmap :: "mmap \<Rightarrow> u64 \<Rightarrow> mmap" where
  "mmap_unmap mm gpa = mm\<lparr>entries := (entries mm)(gpa := None)\<rparr>"

definition identity_map_convert_2m_to_4k :: "mmap \<Rightarrow> u64 \<Rightarrow> mmap" where
  "identity_map_convert_2m_to_4k mm gpa_2m =
     mm\<lparr>entries := (\<lambda>g. if upper g pd_from = gpa_2m
                         then map_option (\<lambda>e. e\<lparr>e_from := pt_from\<rparr>) (entries mm g)
                         else entries mm g)\<rparr>"

definition flush_tables :: "mmap \<Rightarrow> mmap" where
  "flush_tables mm = mm\<lparr>flushes := Suc (flushes mm)\<rparr>"

definition set_iommu_coherence :: "mmap \<Rightarrow> bool \<Rightarrow> mmap" where
  "set_iommu_coherence mm b = mm\<lparr>iommu_coherence := b\<rparr>"

definition set_iommu_snoop_ctl :: "mmap \<Rightarrow> bool \<Rightarrow> mmap" where
  "set_iommu_snoop_ctl mm b = mm\<lparr>iommu_snoop_ctl := b\<rparr>"

text \<open>Modelled from the spec: the acting virtual processor is an external collaborator.
  The spec gives the resolver \<open>gpa_to_hpa(gpa) -> (host-physical address, source page
  size)\<close>, which may fail, and the shootdown primitive \<open>begin_shootdown -> {ok | retry}\<close>,
  \<open>end_shootdown\<close> and the invalidation of the translation cache. What the resolver and
  \<open>begin_shootdown\<close> answer is part of the processor's state; the calls made on the
  processor are logged in \<open>calls\<close>.\<close>

datatype vcpu_call = Begin_shootdown | End_shootdown | Invept

record vcpu =
  gpa_to_hpa :: "u64 \<Rightarrow> (u64 \<times> nat) option"
  shootdown_rc :: status
  calls :: "vcpu_call list"

definition begin_shootdown :: "vcpu \<Rightarrow> status \<times> vcpu" where
  "begin_shootdown v = (shootdown_rc v, v\<lparr>calls := calls v @ [Begin_shootdown]\<rparr>)"

definition end_shootdown :: "vcpu \<Rightarrow> vcpu" where
  "end_shootdown v = v\<lparr>calls := calls v @ [End_shootdown]\<rparr>"

definition invept :: "vcpu \<Rightarrow> vcpu" where
  "invept v = v\<lparr>calls := calls v @ [Invept]\<rparr>"

text \<open>Modelled from the spec: an IOMMU with its coherent-page-walk and snoop-control
  capabilities, and a PCI device with the IOMMU that serves it (\<open>iommu/iommu.h\<close> and
  \<open>pci/dev.h\<close> are not among the sources). \<open>iommu_ident\<close> stands for the identity of the
  object a pointer refers to.\<close>

record iommu =
  iommu_ident :: nat
  coherent_page_walk :: bool
  snoop_ctl :: bool

record pci_dev =
  m_cf8 :: "32 word"
  m_iommu :: iommu

section \<open>The domain\<close>

text \<open>\<open>m_donated_page_map\<close> maps the borrower's domain identifier to its interval set.
  \<open>is_xen_dom\<close> is \<open>m_sod_info.is_xen_dom()\<close>, and \<open>xen_root_pages\<close> collects the pages
  handed to the paravirtualized guest's own memory management by \<open>add_root_page\<close>.\<close>

type_synonym donated_page_map = "domainid_t \<rightharpoonup> page_range_set"

record domain =
  dom_id :: domainid_t
  m_ept_map :: mmap
  m_donated_page_map :: donated_page_map
  m_pci_devs :: "pci_dev list"
  m_iommu_set :: "iommu set"
  m_dma_map_ready :: bool
  is_xen_dom :: bool
  xen_root_pages :: "(u64 \<times> u64 \<times> attr_type \<times> memory_type) list"

subsection \<open>IOMMU coordination\<close>

definition add_iommu :: "domain \<Rightarrow> iommu \<Rightarrow> domain" where
  "add_iommu d i =
     (if i \<in> m_iommu_set d then d else d\<lparr>m_iommu_set := insert i (m_iommu_set d)\<rparr>)"

definition remove_iommu :: "domain \<Rightarrow> iommu \<Rightarrow> domain" where
  "remove_iommu d i = d\<lparr>m_iommu_set := m_iommu_set d - {i}\<rparr>"

text \<open>The loop of \<open>domain::prepare_iommus\<close> over \<open>m_pci_devs\<close>, with the two flags and the
  domain as its state.\<close>

fun prepare_iommus_loop :: "pci_dev list \<Rightarrow> bool \<times> bool \<times> domain \<Rightarrow> bool \<times> bool \<times> domain" where
  "prepare_iommus_loop [] acc = acc"
| "prepare_iommus_loop (pdev # rest) (coherent, snoop, d) =
     prepare_iommus_loop rest
       (coherent_page_walk (m_iommu pdev) \<and> coherent,
        snoop_ctl (m_iommu pdev) \<and> snoop,
        add_iommu d (m_iommu pdev))"

definition prepare_iommus :: "domain \<Rightarrow> domain" where
  "prepare_iommus d =
     (case prepare_iommus_loop (m_pci_devs d) (True, True, d) of
        (coherent, snoop, d1) \<Rightarrow>
          let d2 = d1\<lparr>m_ept_map :=
                     set_iommu_snoop_ctl (set_iommu_coherence (m_ept_map d1) coherent) snoop\<rparr>;
              d3 = (if \<not> coherent then d2\<lparr>m_ept_map := flush_tables (m_ept_map d2)\<rparr> else d2)
          in d3\<lparr>m_dma_map_ready := True\<rparr>)"

subsection \<open>The donated-page tracker\<close>

definition donated_pages_to_guest :: "domain \<Rightarrow> domainid_t \<Rightarrow> bool" where
  "donated_pages_to_guest d guest_domid \<longleftrightarrow> m_donated_page_map d guest_domid \<noteq> None"

definition page_already_donated :: "domain \<Rightarrow> domainid_t \<Rightarrow> u64 \<Rightarrow> bool" where
  "page_already_donated d guest_domid page_gpa =
     (case m_donated_page_map d guest_domid of
        None \<Rightarrow> False
      | Some range_set \<Rightarrow> find_page_range range_set page_gpa \<noteq> length range_set)"

definition add_page_to_donated_range :: "domain \<Rightarrow> domainid_t \<Rightarrow> u64 \<Rightarrow> domain" where
  "add_page_to_donated_range d guest_domid page_gpa =
     (let m = m_donated_page_map d;
          m1 = (if m guest_domid = None then m(guest_domid \<mapsto> []) else m)
      in case m1 guest_domid of
           None \<Rightarrow> d\<lparr>m_donated_page_map := m1\<rparr>
         | Some range_set \<Rightarrow>
             d\<lparr>m_donated_page_map :=
                 m1(guest_domid \<mapsto> add_page_to_range_set range_set page_gpa)\<rparr>)"

definition remove_page_from_donated_range :: "domain \<Rightarrow> domainid_t \<Rightarrow> u64 \<Rightarrow> domain" where
  "remove_page_from_donated_range d guest_domid page_gpa =
     (case m_donated_page_map d guest_domid of
        None \<Rightarrow> d
      | Some range_set \<Rightarrow>
          d\<lparr>m_donated_page_map :=
              (m_donated_page_map d)(guest_domid \<mapsto>
                 remove_page_from_range_set range_set page_gpa)\<rparr>)"

subsection \<open>Mapping operations of the domain\<close>

definition map_4k_rwe :: "domain \<Rightarrow> u64 \<Rightarrow> u64 \<Rightarrow> domain" where
  "map_4k_rwe d gpa hpa =
     d\<lparr>m_ept_map := map_4k (m_ept_map d) gpa hpa read_write_execute write_back\<rparr>"

definition unmap :: "domain \<Rightarrow> u64 \<Rightarrow> domain" where
  "unmap d gpa = d\<lparr>m_ept_map := mmap_unmap (m_ept_map d) gpa\<rparr>"

subsection \<open>Donation and reclaim\<close>

text \<open>The last step of \<open>domain::donate_root_page\<close>: the page is installed in the guest,
  through its own memory management when the guest is paravirtualized.\<close>

definition install_guest_page ::
  "domain \<Rightarrow> u64 \<Rightarrow> u64 \<Rightarrow> attr_type \<Rightarrow> memory_type \<Rightarrow> domain" where
  "install_guest_page guest_dom guest_gpa root_gpa_4k perm mtype =
     (if is_xen_dom guest_dom
      then guest_dom\<lparr>xen_root_pages :=
             xen_root_pages guest_dom @ [(guest_gpa, root_gpa_4k, perm, mtype)]\<rparr>
      else guest_dom\<lparr>m_ept_map :=
             map_4k (m_ept_map guest_dom) guest_gpa root_gpa_4k perm mtype\<rparr>)"

text \<open>\<open>domain::donate_root_page\<close>. The result is the outcome, the root domain, the guest
  domain and the acting processor. A failed \<open>expects\<close> aborts the operation; the resolver
  failing (its exception is caught) gives \<open>FAILURE\<close>.\<close>

definition donate_root_page ::
  "vcpu \<Rightarrow> domain \<Rightarrow> u64 \<Rightarrow> domain \<Rightarrow> u64 \<Rightarrow> attr_type \<Rightarrow> memory_type
   \<Rightarrow> outcome \<times> domain \<times> domain \<times> vcpu" where
  "donate_root_page root this root_gpa guest_dom guest_gpa perm mtype =
     (if dom_id this \<noteq> 0 then (Contract_violation, this, guest_dom, root)
      else
        let root_gpa_4k = upper root_gpa pt_from in
        if \<not> page_already_donated this (dom_id guest_dom) root_gpa_4k then
          (case gpa_to_hpa root root_gpa_4k of
             None \<Rightarrow> (Returned FAILURE, this, guest_dom, root)
           | Some (hpa, from) \<Rightarrow>
               if hpa \<noteq> root_gpa_4k then (Contract_violation, this, guest_dom, root)
               else
                 case begin_shootdown root of
                   (rc, root1) \<Rightarrow>
                     if rc = AGAIN then (Returned AGAIN, this, guest_dom, root1)
                     else
                       let this1 =
                             (if from = pd_from
                              then this\<lparr>m_ept_map :=
                                     identity_map_convert_2m_to_4k (m_ept_map this)
                                       (upper root_gpa pd_from)\<rparr>
                              else this);
                           this2 = unmap this1 root_gpa_4k;
                           root2 = invept (end_shootdown root1);
                           this3 = add_page_to_donated_range this2 (dom_id guest_dom) root_gpa_4k
                       in (Returned SUCCESS, this3,
                           install_guest_page guest_dom guest_gpa root_gpa_4k perm mtype,
                           root2))
        else
          (Returned SUCCESS, this,
           install_guest_page guest_dom guest_gpa root_gpa_4k perm mtype, root))"

text \<open>\<open>domain::reclaim_root_page\<close>. \<open>get_domain\<close> is the lookup of the Domain Registry:
  \<open>None\<close> stands for \<open>nullptr\<close>.\<close>

definition reclaim_root_page ::
  "(domainid_t \<Rightarrow> domain option) \<Rightarrow> domain \<Rightarrow> domainid_t \<Rightarrow> u64 \<Rightarrow> status \<times> domain" where
  "reclaim_root_page get_domain this guest_domid root_gpa =
     (if dom_id this \<noteq> 0 then (FAILURE, this)
      else if get_domain guest_domid \<noteq> None then (FAILURE, this)
      else
        let root_gpa_4k = upper root_gpa pt_from in
        if \<not> page_already_donated this guest_domid root_gpa_4k then (FAILURE, this)
        else
          let this1 = remove_page_from_donated_range this guest_domid root_gpa_4k
          in (SUCCESS, map_4k_rwe this1 root_gpa_4k root_gpa_4k))"

text \<open>The inner loop of \<open>domain::reclaim_root_pages\<close>:
  \<open>for (auto gpa = start; gpa < limit; gpa += UV_PAGE_SIZE)\<close>. On 64-bit values the loop
  need not end for every pair of bounds, so it is a partial function and \<open>None\<close> stands
  for a loop that does not return.\<close>

partial_function (option) remap_pages :: "u64 \<Rightarrow> u64 \<Rightarrow> domain \<Rightarrow> domain option" where
  "remap_pages gpa lim d =
     (if gpa < lim then remap_pages (gpa + UV_PAGE_SIZE) lim (map_4k_rwe d gpa gpa)
      else Some d)"

text \<open>The outer loop over the intervals of the borrower.\<close>

fun remap_ranges :: "page_range list \<Rightarrow> domain \<Rightarrow> domain option" where
  "remap_ranges [] d = Some d"
| "remap_ranges (r # rest) d =
     (case remap_pages (m_page_start r) (limit r) d of
        None \<Rightarrow> None
      | Some d1 \<Rightarrow> remap_ranges rest d1)"

definition reclaim_root_pages ::
  "(domainid_t \<Rightarrow> domain option) \<Rightarrow> domain \<Rightarrow> domainid_t \<Rightarrow> (status \<times> domain) option" where
  "reclaim_root_pages get_domain this guest_domid =
     (if dom_id this \<noteq> 0 then Some (FAILURE, this)
      else if get_domain guest_domid \<noteq> None then Some (FAILURE, this)
      else
        case m_donated_page_map this guest_domid of
          None \<Rightarrow> Some (FAILURE, this)
        | Some range_set \<Rightarrow>
            (case remap_ranges range_set this of
               None \<Rightarrow> None
             | Some this1 \<Rightarrow>
                 Some (SUCCESS,
                       this1\<lparr>m_donated_page_map :=
                               (m_donated_page_map this1)(guest_domid := None)\<rparr>)))"

section \<open>Well-formed interval sets\<close>

text \<open>The reading of an interval on the natural numbers: its first address and the first
  address after its last page.\<close>

definition lo :: "page_range \<Rightarrow> nat" where
  "lo r = unat (m_page_start r)"

definition hi :: "page_range \<Rightarrow> nat" where
  "hi r = unat (m_page_start r) + unat (m_page_count r) * 4096"

text \<open>An interval is in order when it holds at least one page, starts at a page boundary
  and ends below the top of the 64-bit address space. An interval set is well formed when
  its intervals are in order and each one ends before the next one starts.\<close>

definition range_ok :: "page_range \<Rightarrow> bool" where
  "range_ok r \<longleftrightarrow> m_page_count r \<noteq> 0 \<and> 4096 dvd lo r \<and> hi r < 2 ^ 64"

definition range_set_wf :: "page_range_set \<Rightarrow> bool" where
  "range_set_wf rs \<longleftrightarrow> (\<forall>r \<in> set rs. range_ok r) \<and> sorted_wrt (\<lambda>a b. hi a \<le> lo b) rs"

definition tracker_wf :: "domain \<Rightarrow> bool" where
  "tracker_wf d \<longleftrightarrow> (\<forall>rs \<in> ran (m_donated_page_map d). range_set_wf rs)"

text \<open>A page address: a multiple of the page size whose page ends below the top of the
  address space.\<close>

definition page_ok :: "u64 \<Rightarrow> bool" where
  "page_ok g \<longleftrightarrow> 4096 dvd unat g \<and> unat g + 4096 < 2 ^ 64"

text \<open>The address \<open>x\<close> lies in the page that starts at \<open>g\<close>.\<close>

definition in_page :: "u64 \<Rightarrow> u64 \<Rightarrow> bool" where
  "in_page g x \<longleftrightarrow> unat g \<le> unat x \<and> unat x < unat g + 4096"

text \<open>The intervals of a set that hold an address, and whether there is one.\<close>

definition holders :: "page_range_set \<Rightarrow> u64 \<Rightarrow> page_range list" where
  "holders rs x = filter (\<lambda>r. contains r x) rs"

definition covers :: "page_range_set \<Rightarrow> u64 \<Rightarrow> bool" where
  "covers rs x \<longleftrightarrow> (\<exists>r \<in> set rs. contains r x)"

section \<open>Sequences of tracker operations\<close>

text \<open>The overload \<open>domain::page_already_donated(page_gpa)\<close>, which looks for the page in
  the interval set of every borrower.\<close>

definition page_already_donated_any :: "domain \<Rightarrow> u64 \<Rightarrow> bool" where
  "page_already_donated_any d page_gpa \<longleftrightarrow>
     (\<exists>range_set \<in> ran (m_donated_page_map d).
        find_page_range range_set page_gpa \<noteq> length range_set)"

text \<open>The number of intervals of a borrower that hold an address.\<close>

definition holder_count :: "domain \<Rightarrow> domainid_t \<Rightarrow> u64 \<Rightarrow> nat" where
  "holder_count d b x =
     (case m_donated_page_map d b of None \<Rightarrow> 0 | Some rs \<Rightarrow> length (holders rs x))"

text \<open>The interval set of a borrower, empty when the borrower has no entry.\<close>

definition ranges_of :: "domain \<Rightarrow> domainid_t \<Rightarrow> page_range_set" where
  "ranges_of d b = (case m_donated_page_map d b of None \<Rightarrow> [] | Some rs \<Rightarrow> rs)"

datatype tracker_op = Insert domainid_t u64 | Remove domainid_t u64

fun apply_op :: "domain \<Rightarrow> tracker_op \<Rightarrow> domain" where
  "apply_op d (Insert b g) = add_page_to_donated_range d b g"
| "apply_op d (Remove b g) = remove_page_from_donated_range d b g"

fun run_ops :: "domain \<Rightarrow> tracker_op list \<Rightarrow> domain" where
  "run_ops d [] = d"
| "run_ops d (opn # ops) = run_ops (apply_op d opn) ops"

text \<open>A sequence of operations is checked when every operation is on a page address and
  every inserted page is, at that moment, recorded for no borrower.\<close>

fun checked :: "domain \<Rightarrow> tracker_op list \<Rightarrow> bool" where
  "checked d [] \<longleftrightarrow> True"
| "checked d (Insert b g # ops) \<longleftrightarrow>
     page_ok g \<and> \<not> page_already_donated_any d g \<and> checked (apply_op d (Insert b g)) ops"
| "checked d (Remove b g # ops) \<longleftrightarrow>
     page_ok g \<and> checked (apply_op d (Remove b g)) ops"

section \<open>States to run the operations on\<close>

definition blank_mmap :: mmap where
  "blank_mmap =
     \<lparr>entries = Map.empty, iommu_coherence = False, iommu_snoop_ctl = False, flushes = 0\<rparr>"

text \<open>A domain with nothing mapped, nothing donated and no device.\<close>

definition blank_domain :: "domainid_t \<Rightarrow> domain" where
  "blank_domain i =
     \<lparr>dom_id = i, m_ept_map = blank_mmap, m_donated_page_map = Map.empty,
      m_pci_devs = [], m_iommu_set = {}, m_dma_map_ready = False, is_xen_dom = False,
      xen_root_pages = []\<rparr>"

text \<open>A processor whose resolver maps every address to itself through 4K pages and whose
  \<open>begin_shootdown\<close> answers \<open>rc\<close>.\<close>

definition identity_vcpu :: "status \<Rightarrow> vcpu" where
  "identity_vcpu rc = \<lparr>gpa_to_hpa = (\<lambda>g. Some (g, pt_from)), shootdown_rc = rc, calls = []\<rparr>"

text \<open>A domain with two assigned devices, each behind an IOMMU of its own with the given
  coherent-page-walk flag.\<close>

definition two_device_domain :: "bool \<Rightarrow> bool \<Rightarrow> domain" where
  "two_device_domain c1 c2 =
     (blank_domain 1)\<lparr>m_pci_devs :=
        [\<lparr>m_cf8 = 0x80000800,
          m_iommu = \<lparr>iommu_ident = 0, coherent_page_walk = c1, snoop_ctl = True\<rparr>\<rparr>,
         \<lparr>m_cf8 = 0x80001000,
          m_iommu = \<lparr>iommu_ident = 1, coherent_page_walk = c2, snoop_ctl = True\<rparr>\<rparr>]\<rparr>"

text \<open>A root domain whose tracker holds the given interval set for borrower 1.\<close>

definition lender_domain :: "page_range_set \<Rightarrow> domain" where
  "lender_domain rs = (blank_domain 0)\<lparr>m_donated_page_map := [1 \<mapsto> rs]\<rparr>"

text \<open>The result of one donation of the page of address \<open>0x5123\<close> by a root domain with
  an empty tracker to domain 1.\<close>

definition donated_once :: "outcome \<times> domain \<times> domain \<times> vcpu" where
  "donated_once =
     donate_root_page (identity_vcpu SUCCESS) (blank_domain 0) 0x5123 (blank_domain 1) 0x7000
       read_write write_back"

section \<open>Intervals read on the natural numbers\<close>

lemma unat_page_size: "unat UV_PAGE_SIZE = 4096"
  by (simp add: UV_PAGE_SIZE_def)

lemma unat_limit: "hi r < 2 ^ 64 \<Longrightarrow> unat (limit r) = hi r"
  by (simp add: limit_def UV_PAGE_SIZE_def hi_def unat_word_ariths)

lemma unat_add_page: "unat g + 4096 < 2 ^ 64 \<Longrightarrow> unat (g + UV_PAGE_SIZE) = unat g + 4096"
  by (simp add: UV_PAGE_SIZE_def unat_word_ariths)

lemma unat_add_pages:
  "unat g + k * 4096 < 2 ^ 64 \<Longrightarrow> unat (g + of_nat k * UV_PAGE_SIZE) = unat g + k * 4096"
  by (simp add: UV_PAGE_SIZE_def unat_word_ariths unat_of_nat)

lemma unat_sub_page: "4096 \<le> unat g \<Longrightarrow> unat (g - UV_PAGE_SIZE) = unat g - 4096"
  by (simp add: UV_PAGE_SIZE_def unat_sub word_le_nat_alt)

lemma count_pos: "m_page_count r \<noteq> 0 \<Longrightarrow> 0 < unat (m_page_count r)"
  by (simp add: unat_gt_0)

lemma contains_nat: "hi r < 2 ^ 64 \<Longrightarrow> contains r g \<longleftrightarrow> lo r \<le> unat g \<and> unat g < hi r"
  by (simp add: contains_def word_le_nat_alt word_less_nat_alt unat_limit lo_def)

lemma contiguous_below_nat: "hi r < 2 ^ 64 \<Longrightarrow> contiguous_below r g \<longleftrightarrow> unat g = hi r"
  using unat_limit [of r] by (auto simp: contiguous_below_def word_unat_eq_iff)

lemma contiguous_above_nat:
  "unat g + 4096 < 2 ^ 64 \<Longrightarrow> contiguous_above r g \<longleftrightarrow> unat g + 4096 = lo r"
  using unat_add_page [of g] by (auto simp: contiguous_above_def word_unat_eq_iff lo_def)

lemma bottom_page_nat: "bottom_page r g \<longleftrightarrow> unat g = lo r"
  by (auto simp: bottom_page_def word_unat_eq_iff lo_def)

lemma hi_ge_page: "m_page_count r \<noteq> 0 \<Longrightarrow> lo r + 4096 \<le> hi r"
  using count_pos [of r] by (simp add: hi_def lo_def)

lemma unat_top: "hi r < 2 ^ 64 \<Longrightarrow> m_page_count r \<noteq> 0 \<Longrightarrow> unat (limit r - UV_PAGE_SIZE) = hi r - 4096"
  using hi_ge_page [of r] by (simp add: unat_sub_page unat_limit)

lemma top_page_nat:
  "hi r < 2 ^ 64 \<Longrightarrow> m_page_count r \<noteq> 0 \<Longrightarrow> top_page r g \<longleftrightarrow> unat g + 4096 = hi r"
  using unat_top [of r] hi_ge_page [of r] by (auto simp: top_page_def word_unat_eq_iff)

lemma middle_page_nat:
  "hi r < 2 ^ 64 \<Longrightarrow> m_page_count r \<noteq> 0 \<Longrightarrow>
   middle_page r g \<longleftrightarrow> lo r < unat g \<and> unat g + 4096 < hi r"
  using unat_top [of r] hi_ge_page [of r]
  by (auto simp: middle_page_def word_less_nat_alt lo_def)


lemma lo_simps [simp]:
  "lo (r\<lparr>m_page_count := c\<rparr>) = lo r"
  "lo \<lparr>m_page_start = s, m_page_count = c\<rparr> = unat s"
  "lo (r\<lparr>m_page_start := s\<rparr>) = unat s"
  by (simp_all add: lo_def)

lemma hi_new [simp]: "hi \<lparr>m_page_start = s, m_page_count = c\<rparr> = unat s + unat c * 4096"
  by (simp add: hi_def)

lemma unat_count_inc: "hi r + 4096 < 2 ^ 64 \<Longrightarrow> unat (m_page_count r + 1) = unat (m_page_count r) + 1"
  by (simp add: hi_def unat_word_ariths)

lemma unat_count_dec: "m_page_count r \<noteq> 0 \<Longrightarrow> unat (m_page_count r - 1) = unat (m_page_count r) - 1"
  by (simp add: unat_minus_one)

lemma hi_ext_above:
  "hi r + 4096 < 2 ^ 64 \<Longrightarrow> hi (r\<lparr>m_page_count := m_page_count r + 1\<rparr>) = hi r + 4096"
  using unat_count_inc [of r] by (simp add: hi_def)

lemma hi_ext_below:
  "hi r < 2 ^ 64 \<Longrightarrow> 4096 \<le> lo r \<Longrightarrow>
   hi (r\<lparr>m_page_start := m_page_start r - UV_PAGE_SIZE, m_page_count := m_page_count r + 1\<rparr>) = hi r"
  using unat_sub_page [of "m_page_start r"]
  by (simp add: hi_def lo_def unat_word_ariths)

lemma lo_ext_below:
  "4096 \<le> lo r \<Longrightarrow>
   lo (r\<lparr>m_page_start := m_page_start r - UV_PAGE_SIZE, m_page_count := c\<rparr>) = lo r - 4096"
  using unat_sub_page [of "m_page_start r"] by (simp add: lo_def)

lemma hi_shrink_top:
  "m_page_count r \<noteq> 0 \<Longrightarrow> hi (r\<lparr>m_page_count := m_page_count r - 1\<rparr>) = hi r - 4096"
  using unat_count_dec [of r] count_pos [of r] by (simp add: hi_def algebra_simps diff_mult_distrib)

lemma hi_shrink_bottom:
  "m_page_count r \<noteq> 0 \<Longrightarrow> hi r < 2 ^ 64 \<Longrightarrow>
   hi (r\<lparr>m_page_start := m_page_start r + UV_PAGE_SIZE, m_page_count := m_page_count r - 1\<rparr>) = hi r"
  using unat_count_dec [of r] count_pos [of r] unat_add_page [of "m_page_start r"]
  by (simp add: hi_def algebra_simps diff_mult_distrib)

lemma lo_shrink_bottom:
  "m_page_count r \<noteq> 0 \<Longrightarrow> hi r < 2 ^ 64 \<Longrightarrow>
   lo (r\<lparr>m_page_start := m_page_start r + UV_PAGE_SIZE, m_page_count := c\<rparr>) = lo r + 4096"
  using count_pos [of r] unat_add_page [of "m_page_start r"]
  by (simp add: hi_def lo_def)

section \<open>The operations on a set split at the page\<close>

lemma lower_bound_split:
  "\<forall>r \<in> set xs. m_page_start r < g \<Longrightarrow> ys = [] \<or> \<not> m_page_start (hd ys) < g \<Longrightarrow>
   lower_bound (xs @ ys) g = length xs"
  by (cases ys) (simp_all add: lower_bound_def takeWhile_append2 takeWhile_eq_all_conv [THEN iffD2])

lemma emplace_split:
  "\<forall>r \<in> set xs. m_page_start r < s \<Longrightarrow> \<forall>r \<in> set ys. s < m_page_start r \<Longrightarrow>
   emplace (xs @ ys) s c = xs @ \<lparr>m_page_start = s, m_page_count = c\<rparr> # ys"
  by (cases ys) (auto simp: emplace_def takeWhile_append2 dropWhile_append2
      takeWhile_eq_all_conv [THEN iffD2] dropWhile_eq_Nil_conv [THEN iffD2])

lemma add_empty: "add_page_to_range_set [] g = [\<lparr>m_page_start = g, m_page_count = 1\<rparr>]"
  by (simp add: add_page_to_range_set_def emplace_def)

lemma add_end:
  assumes "\<forall>r \<in> set (xs @ [q]). m_page_start r < g"
  shows "add_page_to_range_set (xs @ [q]) g =
    (if contiguous_below q g then xs @ [q\<lparr>m_page_count := m_page_count q + 1\<rparr>]
     else xs @ [q, \<lparr>m_page_start = g, m_page_count = 1\<rparr>])"
proof -
  have lb: "lower_bound (xs @ [q]) g = Suc (length xs)"
    using lower_bound_split [of "xs @ [q]" g "[]"] assms by simp
  have em: "emplace (xs @ [q]) g 1 = xs @ [q, \<lparr>m_page_start = g, m_page_count = 1\<rparr>]"
    using emplace_split [of "xs @ [q]" g "[]" 1] assms by simp
  show ?thesis
    by (simp add: add_page_to_range_set_def lb em extend_page_range_above_def nth_append)
qed

lemma add_begin:
  assumes "\<not> m_page_start y < g"
  shows "add_page_to_range_set (y # ys) g =
    (if contiguous_above y g
     then y\<lparr>m_page_start := m_page_start y - UV_PAGE_SIZE, m_page_count := m_page_count y + 1\<rparr> # ys
     else emplace (y # ys) g 1)"
proof -
  have lb: "lower_bound (y # ys) g = 0"
    using assms by (simp add: lower_bound_def)
  show ?thesis
    by (simp add: add_page_to_range_set_def lb extend_page_range_below_def)
qed

lemma add_mid:
  assumes "\<forall>r \<in> set (xs @ [q]). m_page_start r < g" and "\<not> m_page_start y < g"
  shows "add_page_to_range_set (xs @ q # y # ys) g =
    (if contiguous_above y g
     then xs @ q # y\<lparr>m_page_start := m_page_start y - UV_PAGE_SIZE,
                      m_page_count := m_page_count y + 1\<rparr> # ys
     else if contiguous_below q g
     then xs @ q\<lparr>m_page_count := m_page_count q + 1\<rparr> # y # ys
     else emplace (xs @ q # y # ys) g 1)"
proof -
  have lb: "lower_bound (xs @ q # y # ys) g = Suc (length xs)"
    using lower_bound_split [of "xs @ [q]" g "y # ys"] assms by simp
  show ?thesis
    by (simp add: add_page_to_range_set_def lb extend_page_range_above_def
        extend_page_range_below_def nth_append list_update_append)
qed

lemma contains_ok: "range_ok r \<Longrightarrow> contains r g \<longleftrightarrow> lo r \<le> unat g \<and> unat g < hi r"
  by (simp add: range_ok_def contains_nat)

lemma new_range_ok:
  assumes "page_ok g"
  shows "range_ok \<lparr>m_page_start = g, m_page_count = 1\<rparr>"
    and "hi \<lparr>m_page_start = g, m_page_count = 1\<rparr> = unat g + 4096"
  using assms by (simp_all add: range_ok_def page_ok_def)

lemma ext_above_ok:
  assumes "range_ok q" and "page_ok g" and "unat g = hi q"
  shows "range_ok (q\<lparr>m_page_count := m_page_count q + 1\<rparr>)"
    and "hi (q\<lparr>m_page_count := m_page_count q + 1\<rparr>) = unat g + 4096"
proof -
  have h: "hi q + 4096 < 2 ^ 64" using assms by (simp add: page_ok_def)
  show 2: "hi (q\<lparr>m_page_count := m_page_count q + 1\<rparr>) = unat g + 4096"
    using hi_ext_above [OF h] assms by simp
  have "unat (m_page_count q + 1) = unat (m_page_count q) + 1"
    by (rule unat_count_inc [OF h])
  then have "m_page_count q + 1 \<noteq> 0"
    by (metis Suc_eq_plus1 nat.distinct(1) unat_0)
  then show "range_ok (q\<lparr>m_page_count := m_page_count q + 1\<rparr>)"
    using assms 2 by (simp add: range_ok_def page_ok_def)
qed

lemma ext_below_ok:
  assumes "range_ok y" and "page_ok g" and "unat g + 4096 = lo y"
  shows "range_ok (y\<lparr>m_page_start := m_page_start y - UV_PAGE_SIZE,
                      m_page_count := m_page_count y + 1\<rparr>)"
    and "lo (y\<lparr>m_page_start := m_page_start y - UV_PAGE_SIZE,
                 m_page_count := m_page_count y + 1\<rparr>) = unat g"
    and "hi (y\<lparr>m_page_start := m_page_start y - UV_PAGE_SIZE,
                 m_page_count := m_page_count y + 1\<rparr>) = hi y"
proof -
  let ?y = "y\<lparr>m_page_start := m_page_start y - UV_PAGE_SIZE, m_page_count := m_page_count y + 1\<rparr>"
  have ge: "4096 \<le> lo y" using assms by simp
  have lt: "hi y < 2 ^ 64" using assms by (simp add: range_ok_def)
  show 2: "lo ?y = unat g" using lo_ext_below [OF ge] assms by simp
  show 3: "hi ?y = hi y" by (rule hi_ext_below [OF lt ge])
  have c: "unat (m_page_count y) * 4096 < 2 ^ 64" using lt by (simp add: hi_def)
  have "unat (m_page_count y + 1) = unat (m_page_count y) + 1"
    using c by (simp add: unat_word_ariths)
  then have "m_page_count y + 1 \<noteq> 0"
    by (metis Suc_eq_plus1 nat.distinct(1) unat_0)
  then show "range_ok ?y"
    using assms 2 3 by (simp add: range_ok_def page_ok_def)
qed


lemma start_less_nat: "m_page_start r < g \<longleftrightarrow> lo r < unat g"
  by (simp add: lo_def word_less_nat_alt)

lemma dropWhile_sorted:
  "sorted_wrt (\<lambda>a b. lo a < lo b) rs \<Longrightarrow>
   \<forall>r \<in> set (dropWhile (\<lambda>r. m_page_start r < g) rs). \<not> m_page_start r < g"
proof (induction rs)
  case Nil
  show ?case by simp
next
  case (Cons a rs)
  have srt: "sorted_wrt (\<lambda>a b. lo a < lo b) rs" using Cons.prems by simp
  show ?case
  proof (cases "m_page_start a < g")
    case True
    then have eq: "dropWhile (\<lambda>r. m_page_start r < g) (a # rs)
        = dropWhile (\<lambda>r. m_page_start r < g) rs" by simp
    show ?thesis unfolding eq by (rule Cons.IH [OF srt])
  next
    case False
    then have eq: "dropWhile (\<lambda>r. m_page_start r < g) (a # rs) = a # rs" by simp
    have "\<not> lo a < unat g" using False by (simp add: start_less_nat)
    moreover have "\<forall>r \<in> set rs. lo a < lo r" using Cons.prems by simp
    ultimately have "\<forall>r \<in> set rs. \<not> m_page_start r < g"
      by (auto simp: start_less_nat)
    with False show ?thesis unfolding eq by simp
  qed
qed

lemma range_ok_lo_lt_hi: "range_ok r \<Longrightarrow> lo r + 4096 \<le> hi r"
  by (simp add: range_ok_def hi_ge_page)

lemma wf_starts_sorted:
  "range_set_wf rs \<Longrightarrow> sorted_wrt (\<lambda>a b. lo a < lo b) rs"
proof -
  assume wf: "range_set_wf rs"
  then have "sorted_wrt (\<lambda>a b. hi a \<le> lo b) rs" and ok: "\<forall>r \<in> set rs. range_ok r"
    by (simp_all add: range_set_wf_def)
  then have "sorted_wrt (\<lambda>a b. range_ok a \<and> hi a \<le> lo b) rs"
    by (induction rs) auto
  then show ?thesis
    by (rule sorted_wrt_mono_rel [rotated]) (use range_ok_lo_lt_hi in fastforce)
qed

lemma wf_split:
  assumes "range_set_wf rs"
  obtains xs ys where "rs = xs @ ys"
    and "\<forall>r \<in> set xs. m_page_start r < g" and "\<forall>r \<in> set ys. \<not> m_page_start r < g"
proof
  show "rs = takeWhile (\<lambda>r. m_page_start r < g) rs @ dropWhile (\<lambda>r. m_page_start r < g) rs"
    by simp
  show "\<forall>r \<in> set (takeWhile (\<lambda>r. m_page_start r < g) rs). m_page_start r < g"
    by (blast dest: set_takeWhileD)
  show "\<forall>r \<in> set (dropWhile (\<lambda>r. m_page_start r < g) rs). \<not> m_page_start r < g"
    using dropWhile_sorted [OF wf_starts_sorted [OF assms]] .
qed

lemma page_gap: "4096 dvd (a::nat) \<Longrightarrow> 4096 dvd b \<Longrightarrow> a < b \<Longrightarrow> a + 4096 \<le> b"
  by (auto elim!: dvdE)

lemma wf_Nil [simp]: "range_set_wf []"
  by (simp add: range_set_wf_def)

lemma wf_Cons:
  "range_set_wf (r # rs) \<longleftrightarrow> range_ok r \<and> range_set_wf rs \<and> (\<forall>b \<in> set rs. hi r \<le> lo b)"
  by (auto simp: range_set_wf_def)

lemma wf_append:
  "range_set_wf (xs @ ys) \<longleftrightarrow>
   range_set_wf xs \<and> range_set_wf ys \<and> (\<forall>a \<in> set xs. \<forall>b \<in> set ys. hi a \<le> lo b)"
  by (auto simp: range_set_wf_def sorted_wrt_append)

lemma wf_range_ok: "range_set_wf rs \<Longrightarrow> r \<in> set rs \<Longrightarrow> range_ok r"
  by (simp add: range_set_wf_def)

lemma covers_Nil [simp]: "\<not> covers [] x"
  by (simp add: covers_def)

lemma covers_Cons: "covers (r # rs) x \<longleftrightarrow> contains r x \<or> covers rs x"
  by (simp add: covers_def)

lemma covers_append: "covers (xs @ ys) x \<longleftrightarrow> covers xs x \<or> covers ys x"
  by (auto simp: covers_def)

lemma below_page:
  assumes "range_ok r" and "m_page_start r < g" and "\<not> contains r g"
  shows "hi r \<le> unat g"
  using assms by (simp add: contains_ok start_less_nat)

lemma above_page:
  assumes "range_ok r" and "page_ok g" and "\<not> m_page_start r < g" and "\<not> contains r g"
  shows "unat g + 4096 \<le> lo r"
proof -
  have "lo r + 4096 \<le> hi r" using assms(1) by (rule range_ok_lo_lt_hi)
  moreover have "\<not> lo r < unat g" using assms(3) by (simp add: start_less_nat)
  moreover have "\<not> (lo r \<le> unat g \<and> unat g < hi r)" using assms(1,4) by (simp add: contains_ok)
  ultimately have "unat g < lo r" by linarith
  moreover have "4096 dvd unat g" "4096 dvd lo r"
    using assms(1,2) by (simp_all add: page_ok_def range_ok_def)
  ultimately show ?thesis by (simp add: page_gap)
qed

lemma contains_new:
  "page_ok g \<Longrightarrow> contains \<lparr>m_page_start = g, m_page_count = 1\<rparr> x \<longleftrightarrow> in_page g x"
  using new_range_ok [of g] by (simp add: contains_ok in_page_def)

lemma contains_ext_above:
  assumes "range_ok q" and "page_ok g" and "unat g = hi q"
  shows "contains (q\<lparr>m_page_count := m_page_count q + 1\<rparr>) x \<longleftrightarrow> contains q x \<or> in_page g x"
  using ext_above_ok [OF assms] assms range_ok_lo_lt_hi [OF assms(1)]
  by (auto simp: contains_ok in_page_def)

lemma contains_ext_below:
  assumes "range_ok y" and "page_ok g" and "unat g + 4096 = lo y"
  shows "contains (y\<lparr>m_page_start := m_page_start y - UV_PAGE_SIZE,
                      m_page_count := m_page_count y + 1\<rparr>) x \<longleftrightarrow> contains y x \<or> in_page g x"
  using ext_below_ok [OF assms] assms range_ok_lo_lt_hi [OF assms(1)]
  by (auto simp: contains_ok in_page_def)

section \<open>Insertion keeps the set well formed\<close>

lemma add_props:
  assumes wf: "range_set_wf rs" and g: "page_ok g" and nc: "\<not> covers rs g"
  shows "range_set_wf (add_page_to_range_set rs g)
       \<and> (covers (add_page_to_range_set rs g) x \<longleftrightarrow> covers rs x \<or> in_page g x)"
proof -
  obtain xs ys where rs: "rs = xs @ ys"
    and A: "\<forall>r \<in> set xs. m_page_start r < g" and B: "\<forall>r \<in> set ys. \<not> m_page_start r < g"
    using wf_split [OF wf] by blast
  have wfx: "range_set_wf xs" and wfy: "range_set_wf ys"
    and xy: "\<forall>a \<in> set xs. \<forall>b \<in> set ys. hi a \<le> lo b"
    using wf by (simp_all add: rs wf_append)
  have ncx: "\<forall>r \<in> set xs. \<not> contains r g" and ncy: "\<forall>r \<in> set ys. \<not> contains r g"
    using nc by (auto simp: rs covers_def)
  have F1: "\<forall>r \<in> set xs. hi r \<le> unat g"
    using below_page wf_range_ok [OF wfx] A ncx by blast
  have F2: "\<forall>r \<in> set ys. unat g + 4096 \<le> lo r"
    using above_page [OF _ g] wf_range_ok [OF wfy] B ncy by blast
  have B': "\<forall>r \<in> set ys. g < m_page_start r"
    using F2 by (auto simp: start_less_nat word_less_nat_alt lo_def)
  let ?n = "\<lparr>m_page_start = g, m_page_count = 1\<rparr>"
  note n = new_range_ok [OF g]
  note cn = contains_new [OF g]
  show ?thesis
  proof (cases ys)
    case Nil
    note ysN = Nil
    show ?thesis
    proof (cases xs rule: rev_cases)
      case Nil
      then show ?thesis
        using n by (simp add: rs ysN add_empty wf_Cons covers_Cons cn)
    next
      case (snoc xs' q)
      have okq: "range_ok q" using wfx snoc by (simp add: wf_append wf_Cons)
      have Aq: "\<forall>r \<in> set (xs' @ [q]). m_page_start r < g" using A snoc by simp
      have hq: "hi q < 2 ^ 64" using okq by (simp add: range_ok_def)
      show ?thesis
      proof (cases "contiguous_below q g")
        case True
        then have eq: "unat g = hi q" using hq by (simp add: contiguous_below_nat)
        have res: "add_page_to_range_set rs g = xs' @ [q\<lparr>m_page_count := m_page_count q + 1\<rparr>]"
          using add_end [OF Aq] True by (simp add: rs ysN snoc)
        show ?thesis
          unfolding res
          using wfx ext_above_ok [OF okq g eq] contains_ext_above [OF okq g eq]
          by (auto simp: rs ysN snoc wf_append wf_Cons covers_append covers_Cons)
      next
        case False
        have res: "add_page_to_range_set rs g = xs' @ [q, ?n]"
          using add_end [OF Aq] False by (simp add: rs ysN snoc)
        show ?thesis
          unfolding res
          using wfx n F1
          by (auto simp: rs ysN snoc wf_append wf_Cons covers_append covers_Cons cn)
      qed
    qed
  next
    case (Cons y ys')
    note ysC = Cons
    have oky: "range_ok y" using wfy Cons by (simp add: wf_Cons)
    have By: "\<not> m_page_start y < g" using B Cons by simp
    have gp: "unat g + 4096 < 2 ^ 64" using g by (simp add: page_ok_def)
    show ?thesis
    proof (cases xs rule: rev_cases)
      case Nil
      show ?thesis
      proof (cases "contiguous_above y g")
        case True
        then have eq: "unat g + 4096 = lo y" using gp by (simp add: contiguous_above_nat)
        have res: "add_page_to_range_set rs g =
            y\<lparr>m_page_start := m_page_start y - UV_PAGE_SIZE, m_page_count := m_page_count y + 1\<rparr> # ys'"
          using add_begin [OF By] True by (simp add: rs ysC Nil)
        show ?thesis
          unfolding res
          using wfy ext_below_ok [OF oky g eq] contains_ext_below [OF oky g eq]
          by (auto simp: rs ysC Nil wf_Cons covers_Cons)
      next
        case False
        have "emplace ([] @ y # ys') g 1 = [] @ ?n # y # ys'"
          by (rule emplace_split) (use B' ysC in simp_all)
        then have res: "add_page_to_range_set rs g = ?n # y # ys'"
          using add_begin [OF By] False by (simp add: rs ysC Nil)
        show ?thesis
          unfolding res
          using wfy n F2
          by (auto simp: rs ysC Nil wf_Cons covers_Cons cn)
      qed
    next
      case (snoc xs' q)
      have okq: "range_ok q" using wfx snoc by (simp add: wf_append wf_Cons)
      have Aq: "\<forall>r \<in> set (xs' @ [q]). m_page_start r < g" using A snoc by simp
      have hq: "hi q < 2 ^ 64" using okq by (simp add: range_ok_def)
      show ?thesis
      proof (cases "contiguous_above y g")
        case True
        then have eq: "unat g + 4096 = lo y" using gp by (simp add: contiguous_above_nat)
        have res: "add_page_to_range_set rs g =
            xs' @ q # y\<lparr>m_page_start := m_page_start y - UV_PAGE_SIZE,
                         m_page_count := m_page_count y + 1\<rparr> # ys'"
          using add_mid [OF Aq By] True by (simp add: rs ysC snoc)
        show ?thesis
          unfolding res
          using wfx wfy xy F1 ext_below_ok [OF oky g eq] contains_ext_below [OF oky g eq]
          by (auto simp: rs ysC snoc wf_append wf_Cons covers_append covers_Cons)
      next
        case False
        note nabove = False
        show ?thesis
        proof (cases "contiguous_below q g")
          case True
          then have eq: "unat g = hi q" using hq by (simp add: contiguous_below_nat)
          have res: "add_page_to_range_set rs g =
              xs' @ q\<lparr>m_page_count := m_page_count q + 1\<rparr> # y # ys'"
            using add_mid [OF Aq By] True nabove by (simp add: rs ysC snoc)
          show ?thesis
            unfolding res
            using wfx wfy xy F2 ext_above_ok [OF okq g eq] contains_ext_above [OF okq g eq]
            by (auto simp: rs ysC snoc wf_append wf_Cons covers_append covers_Cons)
        next
          case False
          have "emplace ((xs' @ [q]) @ y # ys') g 1 = (xs' @ [q]) @ ?n # y # ys'"
            by (rule emplace_split) (use Aq B' ysC in simp_all)
          then have res: "add_page_to_range_set rs g = xs' @ q # ?n # y # ys'"
            using add_mid [OF Aq By] False nabove by (simp add: rs ysC snoc)
          show ?thesis
            unfolding res
            using wfx wfy xy F1 F2 n
            by (auto simp: rs ysC snoc wf_append wf_Cons covers_append covers_Cons cn)
        qed
      qed
    qed
  qed
qed

section \<open>Lookup and removal\<close>

lemma lower_bound_le: "lower_bound rs g \<le> length rs"
  by (simp add: lower_bound_def length_takeWhile_le)

lemma find_found:
  assumes "find_page_range rs g \<noteq> length rs"
  shows "find_page_range rs g < length rs \<and> contains (rs ! find_page_range rs g) g"
proof -
  have "lower_bound rs g \<le> length rs" by (rule lower_bound_le)
  then show ?thesis
    using assms
    by (cases "rs = []") (auto simp: find_page_range_def Let_def split: if_splits)
qed

lemma find_split:
  assumes wf: "range_set_wf (xs @ r # ys)" and c: "contains r g"
  shows "find_page_range (xs @ r # ys) g = length xs"
proof -
  have okr: "range_ok r" and wfx: "range_set_wf xs" and wfy: "range_set_wf ys"
    and xr: "\<forall>a \<in> set xs. hi a \<le> lo r" and ry: "\<forall>b \<in> set ys. hi r \<le> lo b"
    using wf by (simp_all add: wf_append wf_Cons)
  have cr: "lo r \<le> unat g" "unat g < hi r" using c okr by (simp_all add: contains_ok)
  have A: "\<forall>a \<in> set xs. m_page_start a < g"
  proof
    fix a assume a: "a \<in> set xs"
    have "lo a + 4096 \<le> hi a" using wf_range_ok [OF wfx a] by (rule range_ok_lo_lt_hi)
    then show "m_page_start a < g" using xr a cr by (simp add: start_less_nat) force
  qed
  have B: "\<forall>b \<in> set ys. \<not> m_page_start b < g"
    using ry cr by (simp add: start_less_nat) force
  have ncy: "\<forall>b \<in> set ys. \<not> contains b g"
  proof
    fix b assume b: "b \<in> set ys"
    then show "\<not> contains b g"
      using wf_range_ok [OF wfy b] ry cr by (simp add: contains_ok) force
  qed
  show ?thesis
  proof (cases "m_page_start r < g")
    case True
    have lb: "lower_bound ((xs @ [r]) @ ys) g = length (xs @ [r])"
      by (rule lower_bound_split) (use A B True in \<open>auto simp: neq_Nil_conv\<close>)
    show ?thesis
    proof (cases ys)
      case Nil
      then show ?thesis using lb c by (simp add: find_page_range_def Let_def)
    next
      case (Cons y ys')
      then have "\<not> contains y g" using ncy by simp
      then show ?thesis using lb c Cons by (simp add: find_page_range_def Let_def nth_append)
    qed
  next
    case False
    have lb: "lower_bound (xs @ r # ys) g = length xs"
      by (rule lower_bound_split) (use A False in simp_all)
    show ?thesis using lb c by (simp add: find_page_range_def Let_def nth_append)
  qed
qed

lemma find_covers:
  assumes "range_set_wf rs"
  shows "find_page_range rs g \<noteq> length rs \<longleftrightarrow> covers rs g"
proof
  assume "find_page_range rs g \<noteq> length rs"
  from find_found [OF this] show "covers rs g"
    by (auto simp: covers_def)
next
  assume "covers rs g"
  then obtain r where "r \<in> set rs" and c: "contains r g" by (auto simp: covers_def)
  then obtain xs ys where rs: "rs = xs @ r # ys" by (auto dest: split_list)
  show "find_page_range rs g \<noteq> length rs"
    using find_split [of xs r ys g] assms c by (simp add: rs)
qed

lemma remove_at:
  assumes "find_page_range (xs @ r # ys) g = length xs"
  shows "remove_page_from_range_set (xs @ r # ys) g =
    (if top_page r g then
       (if m_page_count r = 1 then xs @ ys
        else xs @ r\<lparr>m_page_count := m_page_count r - 1\<rparr> # ys)
     else if middle_page r g then
       emplace (emplace (xs @ ys) (g + UV_PAGE_SIZE) (drop_bit 12 (limit r - (g + UV_PAGE_SIZE))))
         (m_page_start r) (drop_bit 12 (g - m_page_start r))
     else if bottom_page r g then
       (if m_page_count r = 1 then xs @ ys
        else xs @ r\<lparr>m_page_start := m_page_start r + UV_PAGE_SIZE,
                     m_page_count := m_page_count r - 1\<rparr> # ys)
     else xs @ r # ys)"
  by (simp add: remove_page_from_range_set_def Let_def erase_def assms UV_PAGE_FROM_def
      nth_append list_update_append)

lemma remove_absent:
  "find_page_range rs g = length rs \<Longrightarrow> remove_page_from_range_set rs g = rs"
  by (simp add: remove_page_from_range_set_def)

lemma unat_drop_bit_12: "unat (drop_bit 12 (w :: u64)) = unat w div 4096"
  by (simp add: unat_drop_bit_eq drop_bit_eq_div unat_div)

lemma contains_page:
  assumes "range_ok r" and "page_ok g" and "in_page g x" and "contains r x"
  shows "contains r g"
proof -
  have d: "4096 dvd unat g" "4096 dvd lo r" "4096 dvd hi r"
    using assms(1,2) by (simp_all add: page_ok_def range_ok_def hi_def lo_def)
  have x: "unat g \<le> unat x" "unat x < unat g + 4096" "lo r \<le> unat x" "unat x < hi r"
    using assms by (simp_all add: in_page_def contains_ok)
  have "lo r \<le> unat g"
    using page_gap [OF d(1) d(2)] x by linarith
  moreover have "unat g < hi r" using x by linarith
  ultimately show ?thesis using assms(1) by (simp add: contains_ok)
qed

lemma sole_page:
  assumes "range_ok r" and "page_ok g" and "contains r g" and "m_page_count r = 1"
  shows "unat g = lo r" and "contains r x \<longleftrightarrow> in_page g x"
proof -
  have h: "hi r = lo r + 4096" using assms(4) by (simp add: hi_def lo_def)
  have d: "4096 dvd unat g" "4096 dvd lo r"
    using assms(1,2) by (simp_all add: page_ok_def range_ok_def)
  have c: "lo r \<le> unat g" "unat g < lo r + 4096" using assms(1,3) h by (simp_all add: contains_ok)
  show 1: "unat g = lo r" using page_gap [OF d(2) d(1)] c by linarith
  show "contains r x \<longleftrightarrow> in_page g x" using assms(1) h 1 by (simp add: contains_ok in_page_def)
qed

lemma count_gt_one:
  assumes "m_page_count r \<noteq> 0" and "m_page_count r \<noteq> 1"
  shows "2 \<le> unat (m_page_count r)"
proof -
  have "unat (m_page_count r) \<noteq> 0" using assms(1) by (simp add: unat_eq_0)
  moreover have "unat (m_page_count r) \<noteq> 1" using assms(2) by (simp add: word_unat_eq_iff)
  ultimately show ?thesis by linarith
qed

lemma shrink_top_ok:
  assumes "range_ok r" and "page_ok g" and "unat g + 4096 = hi r" and "m_page_count r \<noteq> 1"
  shows "range_ok (r\<lparr>m_page_count := m_page_count r - 1\<rparr>)"
    and "hi (r\<lparr>m_page_count := m_page_count r - 1\<rparr>) = unat g"
    and "contains (r\<lparr>m_page_count := m_page_count r - 1\<rparr>) x \<longleftrightarrow> contains r x \<and> \<not> in_page g x"
proof -
  let ?r = "r\<lparr>m_page_count := m_page_count r - 1\<rparr>"
  have c0: "m_page_count r \<noteq> 0" using assms(1) by (simp add: range_ok_def)
  have c2: "2 \<le> unat (m_page_count r)" using count_gt_one [OF c0 assms(4)] .
  have u: "unat (m_page_count r - 1) = unat (m_page_count r) - 1" using unat_count_dec [OF c0] .
  then have n0: "m_page_count r - 1 \<noteq> 0" using c2 by (metis One_nat_def Suc_1 diff_is_0_eq not_less_eq_eq unat_0)
  show 2: "hi ?r = unat g" using hi_shrink_top [OF c0] assms(3) by simp
  show 1: "range_ok ?r" using assms(1,2) n0 2 by (simp add: range_ok_def page_ok_def)
  have "lo r + 4096 \<le> unat g" using c2 assms(3) by (simp add: hi_def lo_def)
  then show "contains ?r x \<longleftrightarrow> contains r x \<and> \<not> in_page g x"
    using 1 2 assms(1,3) by (auto simp: contains_ok in_page_def)
qed

lemma shrink_bottom_ok:
  assumes "range_ok r" and "page_ok g" and "unat g = lo r" and "m_page_count r \<noteq> 1"
  shows "range_ok (r\<lparr>m_page_start := m_page_start r + UV_PAGE_SIZE,
                      m_page_count := m_page_count r - 1\<rparr>)"
    and "lo (r\<lparr>m_page_start := m_page_start r + UV_PAGE_SIZE,
                 m_page_count := m_page_count r - 1\<rparr>) = unat g + 4096"
    and "hi (r\<lparr>m_page_start := m_page_start r + UV_PAGE_SIZE,
                 m_page_count := m_page_count r - 1\<rparr>) = hi r"
    and "contains (r\<lparr>m_page_start := m_page_start r + UV_PAGE_SIZE,
                      m_page_count := m_page_count r - 1\<rparr>) x \<longleftrightarrow> contains r x \<and> \<not> in_page g x"
proof -
  let ?r = "r\<lparr>m_page_start := m_page_start r + UV_PAGE_SIZE, m_page_count := m_page_count r - 1\<rparr>"
  have c0: "m_page_count r \<noteq> 0" and h: "hi r < 2 ^ 64" using assms(1) by (simp_all add: range_ok_def)
  have c2: "2 \<le> unat (m_page_count r)" using count_gt_one [OF c0 assms(4)] .
  have u: "unat (m_page_count r - 1) = unat (m_page_count r) - 1" using unat_count_dec [OF c0] .
  then have n0: "m_page_count r - 1 \<noteq> 0" using c2 by (metis One_nat_def Suc_1 diff_is_0_eq not_less_eq_eq unat_0)
  show 2: "lo ?r = unat g + 4096" using lo_shrink_bottom [OF c0 h] assms(3) by simp
  show 3: "hi ?r = hi r" using hi_shrink_bottom [OF c0 h] .
  show 1: "range_ok ?r" using assms(1,2) n0 2 3 by (simp add: range_ok_def page_ok_def)
  show "contains ?r x \<longleftrightarrow> contains r x \<and> \<not> in_page g x"
    using 1 2 3 assms(1,3) by (auto simp: contains_ok in_page_def)
qed

lemma div_mult_page: "4096 dvd (a::nat) \<Longrightarrow> a div 4096 * 4096 = a"
  by simp

lemma split_lower_ok:
  assumes "range_ok r" and "page_ok g" and "lo r < unat g"
  shows "range_ok \<lparr>m_page_start = m_page_start r,
                   m_page_count = drop_bit 12 (g - m_page_start r)\<rparr>"
    and "hi \<lparr>m_page_start = m_page_start r,
              m_page_count = drop_bit 12 (g - m_page_start r)\<rparr> = unat g"
proof -
  let ?c = "drop_bit 12 (g - m_page_start r) :: u64"
  have d: "4096 dvd unat g" "4096 dvd lo r"
    using assms(1,2) by (simp_all add: page_ok_def range_ok_def)
  have le: "m_page_start r \<le> g" using assms(3) by (simp add: word_le_nat_alt lo_def)
  have s: "unat (g - m_page_start r) = unat g - lo r" using le by (simp add: unat_sub lo_def)
  have dd: "4096 dvd (unat g - lo r)" using d by (simp add: dvd_diff_nat)
  have c: "unat ?c * 4096 = unat g - lo r"
    using div_mult_page [OF dd] by (simp add: unat_drop_bit_12 s)
  have gap: "lo r + 4096 \<le> unat g" using page_gap [OF d(2) d(1) assms(3)] .
  have "unat ?c \<noteq> 0" using c gap by (cases "unat ?c = 0") simp_all
  then have n0: "?c \<noteq> 0" by (simp add: unat_eq_0)
  show 2: "hi \<lparr>m_page_start = m_page_start r, m_page_count = ?c\<rparr> = unat g"
    using c gap by (simp add: lo_def)
  show "range_ok \<lparr>m_page_start = m_page_start r, m_page_count = ?c\<rparr>"
    unfolding range_ok_def using n0 d assms(2) 2 by (simp add: page_ok_def lo_def)
qed

lemma split_upper_ok:
  assumes "range_ok r" and "page_ok g" and "unat g + 4096 < hi r"
  shows "range_ok \<lparr>m_page_start = g + UV_PAGE_SIZE,
                   m_page_count = drop_bit 12 (limit r - (g + UV_PAGE_SIZE))\<rparr>"
    and "lo \<lparr>m_page_start = g + UV_PAGE_SIZE,
              m_page_count = drop_bit 12 (limit r - (g + UV_PAGE_SIZE))\<rparr> = unat g + 4096"
    and "hi \<lparr>m_page_start = g + UV_PAGE_SIZE,
              m_page_count = drop_bit 12 (limit r - (g + UV_PAGE_SIZE))\<rparr> = hi r"
proof -
  let ?c = "drop_bit 12 (limit r - (g + UV_PAGE_SIZE)) :: u64"
  have h: "hi r < 2 ^ 64" using assms(1) by (simp add: range_ok_def)
  have d: "4096 dvd unat g" "4096 dvd hi r"
    using assms(1,2) by (simp_all add: page_ok_def range_ok_def hi_def lo_def)
  have ug: "unat (g + UV_PAGE_SIZE) = unat g + 4096"
    using assms(2) by (simp add: unat_add_page page_ok_def)
  have ul: "unat (limit r) = hi r" using h by (rule unat_limit)
  have le: "g + UV_PAGE_SIZE \<le> limit r" using assms(3) by (simp add: word_le_nat_alt ug ul)
  have s: "unat (limit r - (g + UV_PAGE_SIZE)) = hi r - (unat g + 4096)"
    using le by (simp add: unat_sub ug ul)
  have dd: "4096 dvd (hi r - (unat g + 4096))" using d by (simp add: dvd_diff_nat)
  have c: "unat ?c * 4096 = hi r - (unat g + 4096)"
    using div_mult_page [OF dd] by (simp add: unat_drop_bit_12 s)
  have d2: "4096 dvd (unat g + 4096)" using d by simp
  have gap: "unat g + 4096 + 4096 \<le> hi r" using page_gap [OF d2 d(2) assms(3)] .
  have "unat ?c \<noteq> 0" using c gap by (cases "unat ?c = 0") simp_all
  then have n0: "?c \<noteq> 0" by (simp add: unat_eq_0)
  show 2: "lo \<lparr>m_page_start = g + UV_PAGE_SIZE, m_page_count = ?c\<rparr> = unat g + 4096"
    using ug by simp
  show 3: "hi \<lparr>m_page_start = g + UV_PAGE_SIZE, m_page_count = ?c\<rparr> = hi r"
    using c gap ug by simp
  show "range_ok \<lparr>m_page_start = g + UV_PAGE_SIZE, m_page_count = ?c\<rparr>"
    unfolding range_ok_def using n0 d2 h 2 3 by simp
qed

lemma remove_props:
  assumes wf: "range_set_wf rs" and g: "page_ok g"
  shows "range_set_wf (remove_page_from_range_set rs g)
       \<and> (covers (remove_page_from_range_set rs g) x \<longleftrightarrow> covers rs x \<and> \<not> in_page g x)"
proof (cases "covers rs g")
  case False
  then have "find_page_range rs g = length rs" using find_covers [OF wf] by blast
  then have res: "remove_page_from_range_set rs g = rs" by (rule remove_absent)
  have "\<not> in_page g x" if "covers rs x"
  proof
    assume ip: "in_page g x"
    from that obtain r where r: "r \<in> set rs" and c: "contains r x" by (auto simp: covers_def)
    have "contains r g" using contains_page [OF wf_range_ok [OF wf r] g ip c] .
    then show False using False r by (auto simp: covers_def)
  qed
  then show ?thesis using wf by (auto simp: res)
next
  case True
  then obtain r where "r \<in> set rs" and c: "contains r g" by (auto simp: covers_def)
  then obtain xs ys where rs: "rs = xs @ r # ys" by (auto dest: split_list)
  have fs: "find_page_range (xs @ r # ys) g = length xs"
    using find_split [of xs r ys g] wf c by (simp add: rs)
  note res = remove_at [OF fs]
  have okr: "range_ok r" and wfx: "range_set_wf xs" and wfy: "range_set_wf ys"
    and xr: "\<forall>a \<in> set xs. hi a \<le> lo r" and ry: "\<forall>b \<in> set ys. hi r \<le> lo b"
    and xy: "\<forall>a \<in> set xs. \<forall>b \<in> set ys. hi a \<le> lo b"
    using wf by (simp_all add: rs wf_append wf_Cons)
  have cr: "lo r \<le> unat g" "unat g < hi r" using c okr by (simp_all add: contains_ok)
  have hr: "hi r < 2 ^ 64" and c0: "m_page_count r \<noteq> 0" using okr by (simp_all add: range_ok_def)
  have d: "4096 dvd unat g" "4096 dvd lo r" "4096 dvd hi r"
    using okr g by (simp_all add: page_ok_def range_ok_def hi_def lo_def)
  have ox: "\<not> in_page g x" if "covers xs x"
  proof
    assume ip: "in_page g x"
    from that obtain a where a: "a \<in> set xs" and ca: "contains a x" by (auto simp: covers_def)
    have "contains a g" using contains_page [OF wf_range_ok [OF wfx a] g ip ca] .
    then show False using wf_range_ok [OF wfx a] xr a cr by (simp add: contains_ok) force
  qed
  have oy: "\<not> in_page g x" if "covers ys x"
  proof
    assume ip: "in_page g x"
    from that obtain b where b: "b \<in> set ys" and cb: "contains b x" by (auto simp: covers_def)
    have "contains b g" using contains_page [OF wf_range_ok [OF wfy b] g ip cb] .
    then show False using wf_range_ok [OF wfy b] ry b cr by (simp add: contains_ok) force
  qed
  show ?thesis
  proof (cases "top_page r g")
    case True
    then have top: "unat g + 4096 = hi r" using hr c0 by (simp add: top_page_nat)
    show ?thesis
    proof (cases "m_page_count r = 1")
      case True
      have eq: "remove_page_from_range_set rs g = xs @ ys"
        using res \<open>top_page r g\<close> True by (simp add: rs)
      show ?thesis
        unfolding eq
        using wfx wfy xy ox oy sole_page(2) [OF okr g c True]
        by (auto simp: rs wf_append covers_append covers_Cons)
    next
      case False
      have eq: "remove_page_from_range_set rs g = xs @ r\<lparr>m_page_count := m_page_count r - 1\<rparr> # ys"
        using res \<open>top_page r g\<close> False by (simp add: rs)
      have "\<forall>b \<in> set ys. unat g \<le> lo b" using ry top by force
      then show ?thesis
        unfolding eq
        using wfx wfy xy xr ox oy shrink_top_ok [OF okr g top False]
        by (auto simp: rs wf_append wf_Cons covers_append covers_Cons)
    qed
  next
    case False
    note ntop = False
    then have ntop': "unat g + 4096 \<noteq> hi r" using hr c0 by (simp add: top_page_nat)
    show ?thesis
    proof (cases "middle_page r g")
      case True
      then have m: "lo r < unat g" "unat g + 4096 < hi r" using hr c0 by (simp_all add: middle_page_nat)
      let ?L = "\<lparr>m_page_start = m_page_start r, m_page_count = drop_bit 12 (g - m_page_start r)\<rparr>"
      let ?U = "\<lparr>m_page_start = g + UV_PAGE_SIZE,
                 m_page_count = drop_bit 12 (limit r - (g + UV_PAGE_SIZE))\<rparr>"
      note L = split_lower_ok [OF okr g m(1)]
      note U = split_upper_ok [OF okr g m(2)]
      have ug: "unat (g + UV_PAGE_SIZE) = unat g + 4096"
        using g by (simp add: unat_add_page page_ok_def)
      have xlo: "\<forall>a \<in> set xs. lo a < lo r"
      proof
        fix a assume a: "a \<in> set xs"
        show "lo a < lo r" using range_ok_lo_lt_hi [OF wf_range_ok [OF wfx a]] xr a by force
      qed
      have A1: "\<forall>a \<in> set xs. m_page_start a < g + UV_PAGE_SIZE"
        using xlo m by (simp add: start_less_nat ug) force
      have B1: "\<forall>b \<in> set ys. g + UV_PAGE_SIZE < m_page_start b"
        using ry m by (simp add: word_less_nat_alt ug lo_def [symmetric]) force
      have e1: "emplace (xs @ ys) (g + UV_PAGE_SIZE) (drop_bit 12 (limit r - (g + UV_PAGE_SIZE)))
                  = xs @ ?U # ys"
        by (rule emplace_split [OF A1 B1])
      have A2: "\<forall>a \<in> set xs. m_page_start a < m_page_start r"
        using xlo by (simp add: start_less_nat lo_def [symmetric])
      have B2: "\<forall>b \<in> set (?U # ys). m_page_start r < m_page_start b"
        using ry m range_ok_lo_lt_hi [OF okr]
        by (simp add: word_less_nat_alt ug lo_def [symmetric]) force
      have e2: "emplace (xs @ ?U # ys) (m_page_start r) (drop_bit 12 (g - m_page_start r))
                  = xs @ ?L # ?U # ys"
        by (rule emplace_split [OF A2 B2])
      have eq: "remove_page_from_range_set rs g = xs @ ?L # ?U # ys"
        using res ntop True by (simp add: rs e1 e2)
      have cl: "contains ?L x \<or> contains ?U x \<longleftrightarrow> contains r x \<and> \<not> in_page g x"
        using L U okr m by (auto simp: contains_ok in_page_def lo_def)
      have wfres: "range_set_wf (xs @ ?L # ?U # ys)"
        using wfx wfy xy xr ry L U m by (auto simp: wf_append wf_Cons lo_def)
      have "covers (xs @ ?L # ?U # ys) x \<longleftrightarrow> covers rs x \<and> \<not> in_page g x"
        using cl ox oy by (auto simp: rs covers_append covers_Cons)
      then show ?thesis unfolding eq using wfres by blast
    next
      case False
      note nmid = False
      then have nmid': "\<not> (lo r < unat g \<and> unat g + 4096 < hi r)"
        using hr c0 by (simp add: middle_page_nat)
      show ?thesis
      proof (cases "bottom_page r g")
        case True
        then have bot: "unat g = lo r" by (simp add: bottom_page_nat)
        have n1: "m_page_count r \<noteq> 1"
        proof
          assume "m_page_count r = 1"
          then have "hi r = lo r + 4096" by (simp add: hi_def lo_def)
          then show False using ntop' bot by simp
        qed
        have eq: "remove_page_from_range_set rs g =
            xs @ r\<lparr>m_page_start := m_page_start r + UV_PAGE_SIZE,
                    m_page_count := m_page_count r - 1\<rparr> # ys"
          using res ntop nmid True n1 by (simp add: rs)
        have "\<forall>a \<in> set xs. hi a \<le> unat g + 4096" using xr bot by force
        then show ?thesis
          unfolding eq
          using wfx wfy xy ry ox oy shrink_bottom_ok [OF okr g bot n1]
          by (auto simp: rs wf_append wf_Cons covers_append covers_Cons)
      next
        case False
        then have "unat g \<noteq> lo r" by (simp add: bottom_page_nat)
        then have lt: "lo r < unat g" using cr by linarith
        then have "hi r \<le> unat g + 4096" using nmid' by linarith
        moreover have "unat g + 4096 \<le> hi r" using page_gap [OF d(1) d(3) cr(2)] .
        ultimately show ?thesis using ntop' by linarith
      qed
    qed
  qed
qed

section \<open>Rounding an address down to its page\<close>

lemma upper_mask: "upper g pt_from = g AND NOT (mask 12)"
  by (simp add: upper_def pt_from_def mask_eq_decr_exp)

lemma upper_shift: "upper g pt_from = push_bit 12 (drop_bit 12 g)"
  unfolding upper_mask
  by (rule bit_word_eqI) (auto simp: bit_simps)

lemma unat_upper: "unat (upper g pt_from) = unat g div 4096 * 4096"
proof -
  have "unat g div 4096 * 4096 \<le> unat g" by simp
  moreover have "unat g < 2 ^ 64" using unsigned_less [of g] by simp
  ultimately have lt: "unat g div 4096 * 4096 < 2 ^ 64" by linarith
  have "unat (upper g pt_from) = take_bit 64 (push_bit 12 (unat (drop_bit 12 g)))"
    by (simp add: upper_shift unsigned_push_bit_eq)
  also have "\<dots> = take_bit 64 (unat g div 4096 * 4096)"
    by (simp add: unat_drop_bit_eq drop_bit_eq_div push_bit_eq_mult unat_div)
  also have "\<dots> = unat g div 4096 * 4096"
    using lt by (simp add: take_bit_nat_eq_self)
  finally show ?thesis .
qed

lemma upper_in_page: "in_page (upper g pt_from) g"
  unfolding in_page_def unat_upper
  using div_mult_mod_eq [of "unat g" 4096] mod_less_divisor [of 4096 "unat g"] by linarith

lemma upper_dvd: "4096 dvd unat (upper g pt_from)"
  by (simp add: unat_upper)

section \<open>The tracker of a domain\<close>

lemma remove_Nil [simp]: "remove_page_from_range_set [] g = []"
  by (simp add: remove_page_from_range_set_def find_page_range_def)

lemma tracker_wf_iff: "tracker_wf d \<longleftrightarrow> (\<forall>b. range_set_wf (ranges_of d b))"
proof
  assume wf: "tracker_wf d"
  show "\<forall>b. range_set_wf (ranges_of d b)"
  proof
    fix b
    show "range_set_wf (ranges_of d b)"
    proof (cases "m_donated_page_map d b")
      case None
      then show ?thesis by (simp add: ranges_of_def)
    next
      case (Some rs)
      then have "rs \<in> ran (m_donated_page_map d)" by (rule ranI)
      then show ?thesis using wf Some by (simp add: ranges_of_def tracker_wf_def)
    qed
  qed
next
  assume a: "\<forall>b. range_set_wf (ranges_of d b)"
  show "tracker_wf d"
    unfolding tracker_wf_def
  proof
    fix rs assume "rs \<in> ran (m_donated_page_map d)"
    then obtain b where "m_donated_page_map d b = Some rs" by (auto simp: ran_def)
    then have "ranges_of d b = rs" by (simp add: ranges_of_def)
    then show "range_set_wf rs" using a by metis
  qed
qed

lemma ranges_of_add:
  "ranges_of (add_page_to_donated_range d b g) b' =
     (if b' = b then add_page_to_range_set (ranges_of d b) g else ranges_of d b')"
  by (auto simp: ranges_of_def add_page_to_donated_range_def Let_def split: option.splits)

lemma ranges_of_remove:
  "ranges_of (remove_page_from_donated_range d b g) b' =
     (if b' = b then remove_page_from_range_set (ranges_of d b) g else ranges_of d b')"
  by (auto simp: ranges_of_def remove_page_from_donated_range_def split: option.splits)

lemma pad_ranges_of:
  "page_already_donated d b g \<longleftrightarrow>
     find_page_range (ranges_of d b) g \<noteq> length (ranges_of d b)"
  by (simp add: page_already_donated_def ranges_of_def find_page_range_def split: option.splits)

lemma pad_covers: "tracker_wf d \<Longrightarrow> page_already_donated d b g \<longleftrightarrow> covers (ranges_of d b) g"
  using find_covers [of "ranges_of d b" g] by (simp add: pad_ranges_of tracker_wf_iff)

lemma tracker_wf_add:
  assumes "tracker_wf d" and "page_ok g" and "\<not> page_already_donated d b g"
  shows "tracker_wf (add_page_to_donated_range d b g)"
proof -
  have wf: "range_set_wf (ranges_of d b)" using assms(1) by (simp add: tracker_wf_iff)
  have nc: "\<not> covers (ranges_of d b) g" using assms(1,3) by (simp add: pad_covers)
  have "range_set_wf (add_page_to_range_set (ranges_of d b) g)"
    using add_props [OF wf assms(2) nc] by blast
  then show ?thesis using assms(1) by (simp add: tracker_wf_iff ranges_of_add)
qed

lemma tracker_wf_remove:
  assumes "tracker_wf d" and "page_ok g"
  shows "tracker_wf (remove_page_from_donated_range d b g)"
proof -
  have wf: "range_set_wf (ranges_of d b)" using assms(1) by (simp add: tracker_wf_iff)
  have "range_set_wf (remove_page_from_range_set (ranges_of d b) g)"
    using remove_props [OF wf assms(2)] by blast
  then show ?thesis using assms(1) by (simp add: tracker_wf_iff ranges_of_remove)
qed

lemma add_keeps_fields [simp]:
  "dom_id (add_page_to_donated_range d b g) = dom_id d"
  "m_ept_map (add_page_to_donated_range d b g) = m_ept_map d"
  by (simp_all add: add_page_to_donated_range_def Let_def split: option.splits)

lemma remove_keeps_fields [simp]:
  "dom_id (remove_page_from_donated_range d b g) = dom_id d"
  "m_ept_map (remove_page_from_donated_range d b g) = m_ept_map d"
  by (simp_all add: remove_page_from_donated_range_def split: option.splits)

lemma in_page_self: "in_page g g"
  by (simp add: in_page_def)

lemma pad_after_add:
  assumes "tracker_wf d" and "page_ok g" and "\<not> page_already_donated d b g"
  shows "page_already_donated (add_page_to_donated_range d b g) b g"
proof -
  have wf: "range_set_wf (ranges_of d b)" using assms(1) by (simp add: tracker_wf_iff)
  have nc: "\<not> covers (ranges_of d b) g" using assms(1,3) by (simp add: pad_covers)
  have "covers (add_page_to_range_set (ranges_of d b) g) g"
    using add_props [OF wf assms(2) nc, of g] by (simp add: in_page_self)
  then show ?thesis
    using tracker_wf_add [OF assms] by (simp add: pad_covers ranges_of_add)
qed

lemma upper_page_ok: "unat (upper g pt_from) + 4096 < 2 ^ 64 \<Longrightarrow> page_ok (upper g pt_from)"
  by (simp add: page_ok_def upper_dvd)

lemma tracker_wf_fields:
  "m_donated_page_map d' = m_donated_page_map d \<Longrightarrow> tracker_wf d' = tracker_wf d"
  by (simp add: tracker_wf_def)

lemma pad_fields:
  "m_donated_page_map d' = m_donated_page_map d \<Longrightarrow>
   page_already_donated d' b g = page_already_donated d b g"
  by (simp add: page_already_donated_def)

lemma install_guest_page_id [simp]:
  "dom_id (install_guest_page guest_dom guest_gpa root_gpa_4k perm mtype) = dom_id guest_dom"
  by (simp add: install_guest_page_def)

section \<open>Removal from a single interval\<close>

lemma find_single: "contains r g \<Longrightarrow> find_page_range [r] g = 0"
  by (simp add: find_page_range_def lower_bound_def Let_def)

lemma remove_single:
  assumes "contains r g"
  shows "remove_page_from_range_set [r] g =
    (if top_page r g then
       (if m_page_count r = 1 then [] else [r\<lparr>m_page_count := m_page_count r - 1\<rparr>])
     else if middle_page r g then
       emplace (emplace [] (g + UV_PAGE_SIZE) (drop_bit 12 (limit r - (g + UV_PAGE_SIZE))))
         (m_page_start r) (drop_bit 12 (g - m_page_start r))
     else if bottom_page r g then
       (if m_page_count r = 1 then []
        else [r\<lparr>m_page_start := m_page_start r + UV_PAGE_SIZE,
                 m_page_count := m_page_count r - 1\<rparr>])
     else [r])"
  using remove_at [of "[]" r "[]" g] find_single [OF assms] by simp

lemma unat_plus_const:
  "unat p + unat c < 2 ^ 64 \<Longrightarrow> unat (p + c :: u64) = unat p + unat c"
  using unat_add_lem [of p c] by simp

lemma five_range:
  assumes "unat p + 5 * 4096 < 2 ^ 64"
  shows "hi \<lparr>m_page_start = p, m_page_count = 5\<rparr> = unat p + 20480"
    and "lo \<lparr>m_page_start = p, m_page_count = 5\<rparr> = unat p"
    and "m_page_count \<lparr>m_page_start = p, m_page_count = 5\<rparr> \<noteq> 0"
  by simp_all

text \<open>Claim C2. For a borrower whose interval set is the single interval \<open>{p, 5}\<close>, lying
  below the top of the address space, removing the middle page \<open>p + 2\<close> leaves exactly
  \<open>{p, 2}\<close> and \<open>{p + 3, 2}\<close>, removing the bottom page \<open>p\<close> leaves \<open>{p + 1, 4}\<close>, removing
  the top page \<open>p + 4\<close> leaves \<open>{p, 4}\<close>; and removing the only page of the interval
  \<open>{p, 1}\<close> leaves no interval.\<close>

theorem remove_page_split_correct:
  assumes nowrap: "unat p + 5 * 4096 < 2 ^ 64"
    and five: "m_donated_page_map d b = Some [\<lparr>m_page_start = p, m_page_count = 5\<rparr>]"
    and one: "m_donated_page_map d1 b = Some [\<lparr>m_page_start = p, m_page_count = 1\<rparr>]"
  shows "m_donated_page_map (remove_page_from_donated_range d b (p + 2 * UV_PAGE_SIZE)) b
           = Some [\<lparr>m_page_start = p, m_page_count = 2\<rparr>,
                   \<lparr>m_page_start = p + 3 * UV_PAGE_SIZE, m_page_count = 2\<rparr>]
       \<and> m_donated_page_map (remove_page_from_donated_range d b p) b
           = Some [\<lparr>m_page_start = p + UV_PAGE_SIZE, m_page_count = 4\<rparr>]
       \<and> m_donated_page_map (remove_page_from_donated_range d b (p + 4 * UV_PAGE_SIZE)) b
           = Some [\<lparr>m_page_start = p, m_page_count = 4\<rparr>]
       \<and> m_donated_page_map (remove_page_from_donated_range d1 b p) b = Some []"
proof -
  let ?r = "\<lparr>m_page_start = p, m_page_count = 5\<rparr>"
  let ?s = "\<lparr>m_page_start = p, m_page_count = 1\<rparr>"
  have hr: "hi ?r = unat p + 20480" "hi ?r < 2 ^ 64" "m_page_count ?r \<noteq> 0" "lo ?r = unat p"
    using nowrap by simp_all
  have hs: "hi ?s = unat p + 4096" "hi ?s < 2 ^ 64" "m_page_count ?s \<noteq> 0" "lo ?s = unat p"
    using nowrap by simp_all
  have u2: "unat (p + 2 * UV_PAGE_SIZE) = unat p + 8192"
    and u4: "unat (p + 4 * UV_PAGE_SIZE) = unat p + 16384"
    using nowrap by (simp_all add: UV_PAGE_SIZE_def unat_plus_const)
  have mid: "remove_page_from_range_set [?r] (p + 2 * UV_PAGE_SIZE)
      = [\<lparr>m_page_start = p, m_page_count = 2\<rparr>,
         \<lparr>m_page_start = p + 3 * UV_PAGE_SIZE, m_page_count = 2\<rparr>]"
  proof -
    have c: "contains ?r (p + 2 * UV_PAGE_SIZE)" using hr u2 by (simp add: contains_nat)
    have t: "\<not> top_page ?r (p + 2 * UV_PAGE_SIZE)" using hr u2 by (simp add: top_page_nat)
    have m: "middle_page ?r (p + 2 * UV_PAGE_SIZE)" using hr u2 by (simp add: middle_page_nat)
    have "unat (p + 12288) = unat p + 12288" using nowrap by (simp add: unat_plus_const)
    then have lt: "\<not> 12288 + p < p" by (simp add: word_less_nat_alt add.commute)
    show ?thesis
      using remove_single [OF c] t m lt
      by (simp add: emplace_def limit_def UV_PAGE_SIZE_def)
  qed
  have bot: "remove_page_from_range_set [?r] p = [\<lparr>m_page_start = p + UV_PAGE_SIZE, m_page_count = 4\<rparr>]"
  proof -
    have c: "contains ?r p" using hr by (simp add: contains_nat)
    have t: "\<not> top_page ?r p" using hr by (simp add: top_page_nat)
    have m: "\<not> middle_page ?r p" using hr by (simp add: middle_page_nat)
    have b: "bottom_page ?r p" by (simp add: bottom_page_def)
    show ?thesis using remove_single [OF c] t m b by simp
  qed
  have top: "remove_page_from_range_set [?r] (p + 4 * UV_PAGE_SIZE) = [\<lparr>m_page_start = p, m_page_count = 4\<rparr>]"
  proof -
    have c: "contains ?r (p + 4 * UV_PAGE_SIZE)" using hr u4 by (simp add: contains_nat)
    have t: "top_page ?r (p + 4 * UV_PAGE_SIZE)" using hr u4 by (simp add: top_page_nat)
    show ?thesis using remove_single [OF c] t by simp
  qed
  have sole: "remove_page_from_range_set [?s] p = []"
  proof -
    have c: "contains ?s p" using hs by (simp add: contains_nat)
    have t: "top_page ?s p" using hs by (simp add: top_page_nat)
    show ?thesis using remove_single [OF c] t by simp
  qed
  show ?thesis
    using five one mid bot top sole by (simp add: remove_page_from_donated_range_def)
qed

theorem remove_page_split_correct_witness:
  "m_donated_page_map (remove_page_from_donated_range
       (lender_domain [\<lparr>m_page_start = 0x10000, m_page_count = 5\<rparr>]) 1 0x12000) 1
     = Some [\<lparr>m_page_start = 0x10000, m_page_count = 2\<rparr>,
             \<lparr>m_page_start = 0x13000, m_page_count = 2\<rparr>]
   \<and> m_donated_page_map (remove_page_from_donated_range
       (lender_domain [\<lparr>m_page_start = 0x10000, m_page_count = 5\<rparr>]) 1 0x10000) 1
     = Some [\<lparr>m_page_start = 0x11000, m_page_count = 4\<rparr>]
   \<and> m_donated_page_map (remove_page_from_donated_range
       (lender_domain [\<lparr>m_page_start = 0x10000, m_page_count = 5\<rparr>]) 1 0x14000) 1
     = Some [\<lparr>m_page_start = 0x10000, m_page_count = 4\<rparr>]
   \<and> m_donated_page_map (remove_page_from_donated_range
       (lender_domain [\<lparr>m_page_start = 0x10000, m_page_count = 1\<rparr>]) 1 0x10000) 1
     = Some []"
proof -
  have h1: "unat (0x10000 :: u64) + 5 * 4096 < 2 ^ 64" by simp
  have h2: "m_donated_page_map (lender_domain [\<lparr>m_page_start = 0x10000, m_page_count = 5\<rparr>]) 1
      = Some [\<lparr>m_page_start = 0x10000, m_page_count = 5\<rparr>]"
    by (simp add: lender_domain_def)
  have h3: "m_donated_page_map (lender_domain [\<lparr>m_page_start = 0x10000, m_page_count = 1\<rparr>]) 1
      = Some [\<lparr>m_page_start = 0x10000, m_page_count = 1\<rparr>]"
    by (simp add: lender_domain_def)
  show ?thesis
    using remove_page_split_correct [OF h1 h2 h3] by (simp add: UV_PAGE_SIZE_def)
qed

section \<open>The borrower's key and the bulk reclaim\<close>

lemma upper_aligned: "4096 dvd unat g \<Longrightarrow> upper g pt_from = g"
  by (simp add: word_unat_eq_iff unat_upper)

lemma remap_pages_steps:
  "unat gpa + k * 4096 = unat lim \<Longrightarrow>
   \<exists>d'. remap_pages gpa lim d = Some d' \<and> m_donated_page_map d' = m_donated_page_map d
        \<and> dom_id d' = dom_id d"
proof (induction k arbitrary: gpa d)
  case 0
  then have "\<not> gpa < lim" by (simp add: word_less_nat_alt)
  then show ?case by (subst remap_pages.simps) simp
next
  case (Suc k)
  have lt: "gpa < lim" using Suc.prems by (simp add: word_less_nat_alt)
  have "unat lim < 2 ^ 64" using unsigned_less [of lim] by simp
  then have u: "unat (gpa + UV_PAGE_SIZE) = unat gpa + 4096"
    using Suc.prems by (simp add: unat_add_page)
  have "unat (gpa + UV_PAGE_SIZE) + k * 4096 = unat lim" using Suc.prems u by simp
  from Suc.IH [OF this, of "map_4k_rwe d gpa gpa"]
  obtain d' where "remap_pages (gpa + UV_PAGE_SIZE) lim (map_4k_rwe d gpa gpa) = Some d'"
    and "m_donated_page_map d' = m_donated_page_map (map_4k_rwe d gpa gpa)"
    and "dom_id d' = dom_id (map_4k_rwe d gpa gpa)" by blast
  then show ?case using lt by (subst remap_pages.simps) (simp add: map_4k_rwe_def)
qed

lemma remap_pages_range:
  "\<exists>d'. remap_pages (m_page_start r) (limit r) d = Some d'
        \<and> m_donated_page_map d' = m_donated_page_map d \<and> dom_id d' = dom_id d"
proof (cases "m_page_start r < limit r")
  case False
  then show ?thesis by (subst remap_pages.simps) simp
next
  case True
  then have le: "m_page_start r \<le> limit r" by simp
  have eq: "limit r - m_page_start r = m_page_count r * UV_PAGE_SIZE" by (simp add: limit_def)
  have "unat (m_page_count r * UV_PAGE_SIZE) = (unat (m_page_count r) * 4096) mod 2 ^ 64"
    by (simp add: UV_PAGE_SIZE_def unat_word_ariths)
  moreover have "(4096::nat) dvd 2 ^ 64" by simp
  ultimately have "4096 dvd unat (m_page_count r * UV_PAGE_SIZE)"
    by (simp add: dvd_mod)
  then obtain k where k: "unat (limit r - m_page_start r) = k * 4096"
    unfolding eq by (auto elim: dvdE simp: mult.commute)
  have "unat (limit r - m_page_start r) = unat (limit r) - unat (m_page_start r)"
    using le by (simp add: unat_sub)
  moreover have "unat (m_page_start r) \<le> unat (limit r)" using le by (simp add: word_le_nat_alt)
  ultimately have "unat (m_page_start r) + k * 4096 = unat (limit r)" using k by linarith
  then show ?thesis by (rule remap_pages_steps)
qed

lemma remap_ranges_returns:
  "\<exists>d'. remap_ranges rs d = Some d' \<and> m_donated_page_map d' = m_donated_page_map d
        \<and> dom_id d' = dom_id d"
proof (induction rs arbitrary: d)
  case Nil
  show ?case by simp
next
  case (Cons r rs)
  obtain d1 where 1: "remap_pages (m_page_start r) (limit r) d = Some d1"
    and m1: "m_donated_page_map d1 = m_donated_page_map d" and i1: "dom_id d1 = dom_id d"
    using remap_pages_range [of r d] by blast
  obtain d2 where 2: "remap_ranges rs d1 = Some d2"
    and m2: "m_donated_page_map d2 = m_donated_page_map d1" and i2: "dom_id d2 = dom_id d1"
    using Cons.IH [of d1] by blast
  show ?case using 1 2 m1 m2 i1 i2 by simp
qed

lemma reclaim_root_pages_erases:
  assumes "dom_id d = 0" and "get_domain b = None" and "donated_pages_to_guest d b"
  shows "\<exists>d'. reclaim_root_pages get_domain d b = Some (SUCCESS, d') \<and> \<not> donated_pages_to_guest d' b"
proof -
  obtain rs where rs: "m_donated_page_map d b = Some rs"
    using assms(3) by (auto simp: donated_pages_to_guest_def)
  obtain d1 where "remap_ranges rs d = Some d1"
    using remap_ranges_returns [of rs d] by blast
  then show ?thesis
    using assms(1,2) rs by (simp add: reclaim_root_pages_def donated_pages_to_guest_def)
qed

lemma key_kept_remove:
  "donated_pages_to_guest d b \<Longrightarrow> donated_pages_to_guest (remove_page_from_donated_range d b' g) b"
  by (auto simp: donated_pages_to_guest_def remove_page_from_donated_range_def split: option.splits)

lemma key_kept_add:
  "donated_pages_to_guest d b \<Longrightarrow> donated_pages_to_guest (add_page_to_donated_range d b' g) b"
  by (auto simp: donated_pages_to_guest_def add_page_to_donated_range_def Let_def split: option.splits)

lemma key_kept_reclaim_page:
  "donated_pages_to_guest d b \<Longrightarrow> donated_pages_to_guest (snd (reclaim_root_page get_domain d b' g)) b"
  using key_kept_remove [of d b b' "upper g pt_from"]
  by (simp add: reclaim_root_page_def Let_def map_4k_rwe_def donated_pages_to_guest_def)

lemma empty_set_no_page: "m_donated_page_map d b = Some [] \<Longrightarrow> \<not> page_already_donated d b gpa"
  by (simp add: page_already_donated_def find_page_range_def)

lemma remove_sole_page:
  assumes "page_ok g"
  shows "remove_page_from_range_set [\<lparr>m_page_start = g, m_page_count = 1\<rparr>] g = []"
proof -
  let ?s = "\<lparr>m_page_start = g, m_page_count = 1\<rparr>"
  have hs: "hi ?s = unat g + 4096" "hi ?s < 2 ^ 64" "m_page_count ?s \<noteq> 0" "lo ?s = unat g"
    using assms by (simp_all add: page_ok_def)
  have c: "contains ?s g" using hs by (simp add: contains_nat)
  have t: "top_page ?s g" using hs by (simp add: top_page_nat)
  have f: "find_page_range ([] @ ?s # []) g = length ([] :: page_range list)"
    using c by (simp add: find_page_range_def lower_bound_def Let_def)
  show ?thesis using remove_at [OF f] t by simp
qed

text \<open>Claim C10. Removing pages one at a time, as \<open>reclaim_root_page\<close> does through
  \<open>remove_page_from_donated_range\<close>, never erases a borrower's key from the tracker. So
  when the root reclaims the last donated page of a borrower that is gone, the borrower's
  interval set becomes empty but stays in the map: \<open>donated_pages_to_guest\<close> still answers
  true while \<open>page_already_donated\<close> answers false for every address; \<open>reclaim_root_pages\<close>
  then returns success and erases the entry, after which \<open>donated_pages_to_guest\<close> answers
  false.\<close>

theorem borrower_key_outlives_its_pages:
  assumes root: "dom_id d = 0" and gone: "get_domain b = None"
    and last: "m_donated_page_map d b = Some [\<lparr>m_page_start = g, m_page_count = 1\<rparr>]"
    and g: "page_ok g"
  shows "(\<forall>d0 b' g'. donated_pages_to_guest d0 b \<longrightarrow>
            donated_pages_to_guest (remove_page_from_donated_range d0 b' g') b
          \<and> donated_pages_to_guest (snd (reclaim_root_page get_domain d0 b' g')) b)
       \<and> fst (reclaim_root_page get_domain d b g) = SUCCESS
       \<and> m_donated_page_map (snd (reclaim_root_page get_domain d b g)) b = Some []
       \<and> donated_pages_to_guest (snd (reclaim_root_page get_domain d b g)) b
       \<and> (\<forall>gpa. \<not> page_already_donated (snd (reclaim_root_page get_domain d b g)) b gpa)
       \<and> (\<exists>d'. reclaim_root_pages get_domain (snd (reclaim_root_page get_domain d b g)) b
                  = Some (SUCCESS, d')
               \<and> \<not> donated_pages_to_guest d' b)"
proof -
  let ?s = "\<lparr>m_page_start = g, m_page_count = 1\<rparr>"
  let ?d1 = "snd (reclaim_root_page get_domain d b g)"
  have up: "upper g pt_from = g" using g by (simp add: upper_aligned page_ok_def)
  have hs: "hi ?s = unat g + 4096" "hi ?s < 2 ^ 64" "lo ?s = unat g"
    using g by (simp_all add: page_ok_def)
  have c: "contains ?s g" using hs by (simp add: contains_nat)
  have pad: "page_already_donated d b g"
    using last c by (simp add: page_already_donated_def find_page_range_def lower_bound_def Let_def)
  have rm: "m_donated_page_map (remove_page_from_donated_range d b g) b = Some []"
    using last remove_sole_page [OF g] by (simp add: remove_page_from_donated_range_def)
  have st: "fst (reclaim_root_page get_domain d b g) = SUCCESS"
    using root gone pad by (simp add: reclaim_root_page_def up)
  have d1: "?d1 = map_4k_rwe (remove_page_from_donated_range d b g) g g"
    using root gone pad by (simp add: reclaim_root_page_def up)
  have m1: "m_donated_page_map ?d1 b = Some []"
    using rm by (simp add: d1 map_4k_rwe_def)
  have id1: "dom_id ?d1 = 0"
    using root last by (simp add: d1 map_4k_rwe_def remove_page_from_donated_range_def)
  have k1: "donated_pages_to_guest ?d1 b" using m1 by (simp add: donated_pages_to_guest_def)
  have gen: "\<forall>d0 b' g'. donated_pages_to_guest d0 b \<longrightarrow>
            donated_pages_to_guest (remove_page_from_donated_range d0 b' g') b
          \<and> donated_pages_to_guest (snd (reclaim_root_page get_domain d0 b' g')) b"
    using key_kept_remove key_kept_reclaim_page by blast
  have er: "\<exists>d'. reclaim_root_pages get_domain ?d1 b = Some (SUCCESS, d')
               \<and> \<not> donated_pages_to_guest d' b"
    using id1 gone k1 by (rule reclaim_root_pages_erases)
  show ?thesis
    using gen st m1 k1 empty_set_no_page [OF m1] er by blast
qed

theorem borrower_key_outlives_its_pages_witness:
  "fst (reclaim_root_page (\<lambda>i. None)
          (lender_domain [\<lparr>m_page_start = 0x10000, m_page_count = 1\<rparr>]) 1 0x10000) = SUCCESS
   \<and> m_donated_page_map (snd (reclaim_root_page (\<lambda>i. None)
          (lender_domain [\<lparr>m_page_start = 0x10000, m_page_count = 1\<rparr>]) 1 0x10000)) 1 = Some []
   \<and> donated_pages_to_guest (snd (reclaim_root_page (\<lambda>i. None)
          (lender_domain [\<lparr>m_page_start = 0x10000, m_page_count = 1\<rparr>]) 1 0x10000)) 1
   \<and> \<not> page_already_donated (snd (reclaim_root_page (\<lambda>i. None)
          (lender_domain [\<lparr>m_page_start = 0x10000, m_page_count = 1\<rparr>]) 1 0x10000)) 1 0x10000"
proof -
  let ?d = "lender_domain [\<lparr>m_page_start = 0x10000, m_page_count = 1\<rparr>]"
  have h1: "dom_id ?d = 0" by (simp add: lender_domain_def blank_domain_def)
  have h2: "(\<lambda>i :: domainid_t. None :: domain option) 1 = None" by simp
  have h3: "m_donated_page_map ?d 1 = Some [\<lparr>m_page_start = 0x10000, m_page_count = 1\<rparr>]"
    by (simp add: lender_domain_def)
  have h4: "page_ok 0x10000" by (simp add: page_ok_def)
  show ?thesis
    using borrower_key_outlives_its_pages [OF h1 h2 h3 h4] by blast
qed

section \<open>IOMMU capabilities\<close>

lemma add_iommu_ept [simp]: "m_ept_map (add_iommu d i) = m_ept_map d"
  by (simp add: add_iommu_def)

lemma prepare_iommus_loop_flags:
  "prepare_iommus_loop devs (c, s, d) = (c', s', d') \<Longrightarrow>
   c' = (c \<and> (\<forall>p \<in> set devs. coherent_page_walk (m_iommu p)))
   \<and> s' = (s \<and> (\<forall>p \<in> set devs. snoop_ctl (m_iommu p)))
   \<and> m_ept_map d' = m_ept_map d"
proof (induction devs arbitrary: c s d)
  case Nil
  then show ?case by simp
next
  case (Cons pdev rest)
  from Cons.prems have "prepare_iommus_loop rest
       (coherent_page_walk (m_iommu pdev) \<and> c, snoop_ctl (m_iommu pdev) \<and> s,
        add_iommu d (m_iommu pdev)) = (c', s', d')" by simp
  from Cons.IH [OF this] show ?case by auto
qed

lemma prepare_iommus_result:
  "iommu_coherence (m_ept_map (prepare_iommus d))
     = (\<forall>p \<in> set (m_pci_devs d). coherent_page_walk (m_iommu p))
   \<and> flushes (m_ept_map (prepare_iommus d))
     = (if \<forall>p \<in> set (m_pci_devs d). coherent_page_walk (m_iommu p)
        then flushes (m_ept_map d) else Suc (flushes (m_ept_map d)))"
proof -
  obtain c s d1 where l: "prepare_iommus_loop (m_pci_devs d) (True, True, d) = (c, s, d1)"
    by (cases "prepare_iommus_loop (m_pci_devs d) (True, True, d)") auto
  from prepare_iommus_loop_flags [OF l]
  have c: "c = (\<forall>p \<in> set (m_pci_devs d). coherent_page_walk (m_iommu p))"
    and e: "m_ept_map d1 = m_ept_map d" by simp_all
  show ?thesis
    by (simp add: prepare_iommus_def l Let_def set_iommu_coherence_def set_iommu_snoop_ctl_def
        flush_tables_def e c [symmetric])
qed

text \<open>Claim C9. When the IOMMUs that serve the assigned devices of a domain have the
  coherent-page-walk flags \<open>{true, false}\<close>, \<open>prepare_iommus\<close> records the coherence
  \<open>false\<close> on the address-translation map and flushes the translation tables exactly once;
  when the flags are \<open>{true, true}\<close> it records \<open>true\<close> and does not flush.\<close>

theorem prepare_iommus_coherence_and_flush:
  "(coherent_page_walk ` m_iommu ` set (m_pci_devs d) = {True, False} \<longrightarrow>
      \<not> iommu_coherence (m_ept_map (prepare_iommus d))
      \<and> flushes (m_ept_map (prepare_iommus d)) = flushes (m_ept_map d) + 1)
   \<and> (coherent_page_walk ` m_iommu ` set (m_pci_devs d) = {True} \<longrightarrow>
      iommu_coherence (m_ept_map (prepare_iommus d))
      \<and> flushes (m_ept_map (prepare_iommus d)) = flushes (m_ept_map d))"
proof (intro conjI impI)
  let ?all = "\<forall>p \<in> set (m_pci_devs d). coherent_page_walk (m_iommu p)"
  note res = prepare_iommus_result [of d]
  {
    assume "coherent_page_walk ` m_iommu ` set (m_pci_devs d) = {True, False}"
    then have "False \<in> coherent_page_walk ` m_iommu ` set (m_pci_devs d)" by simp
    then have n: "\<not> ?all" by blast
    show "\<not> iommu_coherence (m_ept_map (prepare_iommus d))" using res n by simp
    show "flushes (m_ept_map (prepare_iommus d)) = flushes (m_ept_map d) + 1" using res n by simp
  }
  {
    assume "coherent_page_walk ` m_iommu ` set (m_pci_devs d) = {True}"
    then have "False \<notin> coherent_page_walk ` m_iommu ` set (m_pci_devs d)" by simp
    then have a: "?all" by force
    show "iommu_coherence (m_ept_map (prepare_iommus d))" using res a by simp
    show "flushes (m_ept_map (prepare_iommus d)) = flushes (m_ept_map d)" using res a by simp
  }
qed

theorem prepare_iommus_coherence_and_flush_witness:
  "\<not> iommu_coherence (m_ept_map (prepare_iommus (two_device_domain True False)))
   \<and> flushes (m_ept_map (prepare_iommus (two_device_domain True False))) = 1
   \<and> iommu_coherence (m_ept_map (prepare_iommus (two_device_domain True True)))
   \<and> flushes (m_ept_map (prepare_iommus (two_device_domain True True))) = 0"
proof -
  have m: "coherent_page_walk ` m_iommu ` set (m_pci_devs (two_device_domain True False))
             = {True, False}"
    by (simp add: two_device_domain_def)
  have c: "coherent_page_walk ` m_iommu ` set (m_pci_devs (two_device_domain True True)) = {True}"
    by (simp add: two_device_domain_def)
  have f: "flushes (m_ept_map (two_device_domain c1 c2)) = 0" for c1 c2
    by (simp add: two_device_domain_def blank_domain_def blank_mmap_def)
  show ?thesis
    using prepare_iommus_coherence_and_flush [of "two_device_domain True False"]
      prepare_iommus_coherence_and_flush [of "two_device_domain True True"] m c f
    by simp
qed

section \<open>Donation followed by donation or reclaim\<close>

text \<open>What a successful donation leaves behind.\<close>

lemma donate_success:
  assumes root: "dom_id this = 0" and wf: "tracker_wf this"
    and top: "unat (upper root_gpa pt_from) + 4096 < 2 ^ 64"
    and first: "donate_root_page root this root_gpa guest_dom guest_gpa perm mtype
                  = (Returned SUCCESS, this1, guest1, root1)"
  shows "dom_id this1 = 0" and "tracker_wf this1"
    and "page_already_donated this1 (dom_id guest_dom) (upper root_gpa pt_from)"
    and "dom_id guest1 = dom_id guest_dom"
proof -
  let ?g = "upper root_gpa pt_from"
  let ?b = "dom_id guest_dom"
  have g: "page_ok ?g" using top by (rule upper_page_ok)
  have all: "dom_id this1 = 0 \<and> tracker_wf this1 \<and> page_already_donated this1 ?b ?g
      \<and> dom_id guest1 = ?b"
  proof (cases "page_already_donated this ?b ?g")
    case True
    then have "this1 = this" and "guest1 = install_guest_page guest_dom guest_gpa ?g perm mtype"
      using first root by (simp_all add: donate_root_page_def Let_def)
    then show ?thesis using root wf True by simp
  next
    case False
    obtain hpa frm where r: "gpa_to_hpa root ?g = Some (hpa, frm)"
      using first root False
      by (cases "gpa_to_hpa root ?g") (auto simp: donate_root_page_def Let_def)
    have h: "hpa = ?g"
      using first root False r
      by (auto simp: donate_root_page_def Let_def split: if_splits prod.splits)
    have rc: "shootdown_rc root \<noteq> AGAIN"
      using first root False r h
      by (auto simp: donate_root_page_def begin_shootdown_def Let_def split: if_splits)
    let ?this1 = "if frm = pd_from
                  then this\<lparr>m_ept_map := identity_map_convert_2m_to_4k (m_ept_map this)
                                             (upper root_gpa pd_from)\<rparr>
                  else this"
    let ?this2 = "unmap ?this1 ?g"
    have t1: "this1 = add_page_to_donated_range ?this2 ?b ?g"
      and g1: "guest1 = install_guest_page guest_dom guest_gpa ?g perm mtype"
      using first root False r h rc
      by (simp_all add: donate_root_page_def begin_shootdown_def Let_def)
    have m2: "m_donated_page_map ?this2 = m_donated_page_map this" by (simp add: unmap_def)
    have id2: "dom_id ?this2 = 0" using root by (simp add: unmap_def)
    have wf2: "tracker_wf ?this2" using wf tracker_wf_fields [OF m2] by simp
    have np2: "\<not> page_already_donated ?this2 ?b ?g" using False pad_fields [OF m2] by simp
    have "dom_id this1 = 0"
      using id2 unfolding t1 by (simp only: add_keeps_fields)
    then show ?thesis
      using tracker_wf_add [OF wf2 g np2] pad_after_add [OF wf2 g np2] g1
      unfolding t1 by simp
  qed
  then show "dom_id this1 = 0" and "tracker_wf this1"
    and "page_already_donated this1 (dom_id guest_dom) (upper root_gpa pt_from)"
    and "dom_id guest1 = dom_id guest_dom" by simp_all
qed



text \<open>Claim C4. After a successful \<open>donate_root_page\<close> on the root domain for an address
  whose page lies below the top of the address space, once the borrower is no longer in
  the Domain Registry, \<open>reclaim_root_page\<close> for the same address returns success, maps the
  4K-aligned address to itself with read-write-execute permission in the root, takes the
  page (and nothing else) out of the tracker, and \<open>page_already_donated\<close> is false for the
  address afterwards.\<close>

theorem donate_then_reclaim_restores:
  assumes root: "dom_id this = 0" and wf: "tracker_wf this"
    and top: "unat (upper root_gpa pt_from) + 4096 < 2 ^ 64"
    and first: "donate_root_page root this root_gpa guest_dom guest_gpa perm mtype
                  = (Returned SUCCESS, this1, guest1, root1)"
    and gone: "get_domain (dom_id guest_dom) = None"
  shows "fst (reclaim_root_page get_domain this1 (dom_id guest_dom) root_gpa) = SUCCESS
       \<and> entries (m_ept_map (snd (reclaim_root_page get_domain this1 (dom_id guest_dom) root_gpa)))
            (upper root_gpa pt_from)
           = Some \<lparr>e_hpa = upper root_gpa pt_from, e_attr = read_write_execute,
                    e_cache = write_back, e_from = pt_from\<rparr>
       \<and> \<not> page_already_donated
             (snd (reclaim_root_page get_domain this1 (dom_id guest_dom) root_gpa))
             (dom_id guest_dom) root_gpa
       \<and> \<not> page_already_donated
             (snd (reclaim_root_page get_domain this1 (dom_id guest_dom) root_gpa))
             (dom_id guest_dom) (upper root_gpa pt_from)
       \<and> (\<forall>x. \<not> in_page (upper root_gpa pt_from) x \<longrightarrow>
             page_already_donated
               (snd (reclaim_root_page get_domain this1 (dom_id guest_dom) root_gpa))
               (dom_id guest_dom) x
             = page_already_donated this1 (dom_id guest_dom) x)"
proof -
  let ?g = "upper root_gpa pt_from"
  let ?b = "dom_id guest_dom"
  let ?r = "remove_page_from_donated_range this1 ?b ?g"
  let ?d2 = "snd (reclaim_root_page get_domain this1 ?b root_gpa)"
  note s = donate_success [OF root wf top first]
  have g: "page_ok ?g" using top by (rule upper_page_ok)
  have st: "fst (reclaim_root_page get_domain this1 ?b root_gpa) = SUCCESS"
    and d2: "?d2 = map_4k_rwe ?r ?g ?g"
    using s(1,3) gone by (simp_all add: reclaim_root_page_def Let_def)
  have e: "entries (m_ept_map ?d2) ?g
      = Some \<lparr>e_hpa = ?g, e_attr = read_write_execute, e_cache = write_back, e_from = pt_from\<rparr>"
    by (simp add: d2 map_4k_rwe_def map_4k_def)
  have md: "m_donated_page_map ?d2 = m_donated_page_map ?r" by (simp add: d2 map_4k_rwe_def)
  have wfr: "tracker_wf ?r" using tracker_wf_remove [OF s(2) g] .
  have wf1: "range_set_wf (ranges_of this1 ?b)" using s(2) by (simp add: tracker_wf_iff)
  have cov: "page_already_donated ?d2 ?b x
      \<longleftrightarrow> page_already_donated this1 ?b x \<and> \<not> in_page ?g x" for x
  proof -
    have "page_already_donated ?d2 ?b x \<longleftrightarrow> page_already_donated ?r ?b x"
      using pad_fields [OF md] by simp
    also have "\<dots> \<longleftrightarrow> covers (remove_page_from_range_set (ranges_of this1 ?b) ?g) x"
      using wfr by (simp add: pad_covers ranges_of_remove)
    also have "\<dots> \<longleftrightarrow> covers (ranges_of this1 ?b) x \<and> \<not> in_page ?g x"
      using remove_props [OF wf1 g, of x] by blast
    also have "\<dots> \<longleftrightarrow> page_already_donated this1 ?b x \<and> \<not> in_page ?g x"
      using s(2) by (simp add: pad_covers)
    finally show ?thesis .
  qed
  have n1: "\<not> page_already_donated ?d2 ?b root_gpa" using cov upper_in_page by blast
  have n2: "\<not> page_already_donated ?d2 ?b ?g" using cov in_page_self by blast
  have oth: "\<forall>x. \<not> in_page ?g x \<longrightarrow>
      page_already_donated ?d2 ?b x = page_already_donated this1 ?b x"
    using cov by blast
  show ?thesis using st e n1 n2 oth by blast
qed

theorem donate_then_reclaim_restores_witness:
  "fst (reclaim_root_page (\<lambda>i. None) (fst (snd donated_once)) 1 0x5123) = SUCCESS
   \<and> entries (m_ept_map (snd (reclaim_root_page (\<lambda>i. None) (fst (snd donated_once)) 1 0x5123)))
        (upper 0x5123 pt_from)
       = Some \<lparr>e_hpa = upper 0x5123 pt_from, e_attr = read_write_execute,
                e_cache = write_back, e_from = pt_from\<rparr>
   \<and> \<not> page_already_donated
         (snd (reclaim_root_page (\<lambda>i. None) (fst (snd donated_once)) 1 0x5123)) 1 0x5123"
proof -
  have h1: "dom_id (blank_domain 0) = 0" by (simp add: blank_domain_def)
  have h2: "tracker_wf (blank_domain 0)" by (simp add: tracker_wf_def blank_domain_def)
  have h3: "unat (upper 0x5123 pt_from) + 4096 < 2 ^ 64" by (simp add: unat_upper)
  have "fst donated_once = Returned SUCCESS"
    by (simp add: donated_once_def donate_root_page_def Let_def blank_domain_def
        page_already_donated_def identity_vcpu_def begin_shootdown_def)
  then have h4: "donate_root_page (identity_vcpu SUCCESS) (blank_domain 0) 0x5123 (blank_domain 1)
        0x7000 read_write write_back
      = (Returned SUCCESS, fst (snd donated_once), fst (snd (snd donated_once)),
         snd (snd (snd donated_once)))"
    by (simp add: donated_once_def prod_eq_iff)
  have h5: "(\<lambda>i :: domainid_t. None :: domain option) (dom_id (blank_domain 1)) = None" by simp
  have i: "dom_id (blank_domain 1) = 1" by (simp add: blank_domain_def)
  show ?thesis
    using donate_then_reclaim_restores [OF h1 h2 h3 h4 h5] by (simp add: i)
qed

section \<open>No double donation\<close>

lemma holders_none: "\<forall>r \<in> set rs. \<not> contains r x \<Longrightarrow> holders rs x = []"
  by (simp add: holders_def)

lemma holders_le_one: "range_set_wf rs \<Longrightarrow> length (holders rs x) \<le> 1"
proof (induction rs)
  case Nil
  show ?case by (simp add: holders_def)
next
  case (Cons r rs)
  have okr: "range_ok r" and wf: "range_set_wf rs" and ry: "\<forall>b \<in> set rs. hi r \<le> lo b"
    using Cons.prems by (simp_all add: wf_Cons)
  show ?case
  proof (cases "contains r x")
    case True
    then have x: "unat x < hi r" using okr by (simp add: contains_ok)
    have "\<forall>b \<in> set rs. \<not> contains b x"
    proof
      fix b assume b: "b \<in> set rs"
      then have "hi r \<le> lo b" using ry by simp
      then show "\<not> contains b x" using wf_range_ok [OF wf b] x by (simp add: contains_ok)
    qed
    then have "holders rs x = []" by (rule holders_none)
    then show ?thesis using True by (simp add: holders_def)
  next
    case False
    then have "holders (r # rs) x = holders rs x" by (simp add: holders_def)
    then show ?thesis using Cons.IH [OF wf] by simp
  qed
qed

lemma holders_covers: "holders rs x \<noteq> [] \<longleftrightarrow> covers rs x"
  by (auto simp: holders_def covers_def filter_empty_conv)

lemma holder_count_ranges: "holder_count d b x = length (holders (ranges_of d b) x)"
  by (simp add: holder_count_def ranges_of_def holders_def split: option.splits)

lemma covers_page:
  assumes "range_set_wf rs" and "page_ok g" and "in_page g x" and "covers rs x"
  shows "covers rs g"
proof -
  from assms(4) obtain r where r: "r \<in> set rs" and c: "contains r x" by (auto simp: covers_def)
  have "contains r g" using contains_page [OF wf_range_ok [OF assms(1) r] assms(2,3) c] .
  then show ?thesis using r by (auto simp: covers_def)
qed

lemma pad_any: "page_already_donated_any d g \<longleftrightarrow> (\<exists>b. page_already_donated d b g)"
proof
  assume "page_already_donated_any d g"
  then obtain rs where "rs \<in> ran (m_donated_page_map d)" and f: "find_page_range rs g \<noteq> length rs"
    by (auto simp: page_already_donated_any_def)
  then obtain b where "m_donated_page_map d b = Some rs" by (auto simp: ran_def)
  then have "page_already_donated d b g" using f by (simp add: page_already_donated_def)
  then show "\<exists>b. page_already_donated d b g" ..
next
  assume "\<exists>b. page_already_donated d b g"
  then obtain b where "page_already_donated d b g" ..
  then obtain rs where m: "m_donated_page_map d b = Some rs" and f: "find_page_range rs g \<noteq> length rs"
    by (auto simp: page_already_donated_def split: option.splits)
  have "rs \<in> ran (m_donated_page_map d)" using m by (rule ranI)
  then show "page_already_donated_any d g" using f by (auto simp: page_already_donated_any_def)
qed

text \<open>The invariant of the tracker: every interval set is well formed and no address is
  covered by the sets of two borrowers.\<close>

lemma inv_insert:
  assumes wf: "tracker_wf d"
    and dis: "\<forall>b1 b2 x. b1 \<noteq> b2 \<longrightarrow> \<not> (covers (ranges_of d b1) x \<and> covers (ranges_of d b2) x)"
    and g: "page_ok g" and na: "\<not> page_already_donated_any d g"
  shows "tracker_wf (add_page_to_donated_range d b g)"
    and "\<forall>b1 b2 x. b1 \<noteq> b2 \<longrightarrow>
           \<not> (covers (ranges_of (add_page_to_donated_range d b g) b1) x
              \<and> covers (ranges_of (add_page_to_donated_range d b g) b2) x)"
proof -
  have np: "\<not> page_already_donated d b' g" for b' using na by (auto simp: pad_any)
  have ncg: "\<not> covers (ranges_of d b') g" for b' using np [of b'] wf by (simp add: pad_covers)
  have wfr: "range_set_wf (ranges_of d b')" for b' using wf by (simp add: tracker_wf_iff)
  show "tracker_wf (add_page_to_donated_range d b g)" using tracker_wf_add [OF wf g np] .
  have cv: "covers (add_page_to_range_set (ranges_of d b) g) x
      \<longleftrightarrow> covers (ranges_of d b) x \<or> in_page g x" for x
    using add_props [OF wfr g ncg, of b x] by blast
  have other: "\<not> (in_page g x \<and> covers (ranges_of d b') x)" for b' x
    using covers_page [OF wfr g, of x b'] ncg [of b'] by blast
  show "\<forall>b1 b2 x. b1 \<noteq> b2 \<longrightarrow>
           \<not> (covers (ranges_of (add_page_to_donated_range d b g) b1) x
              \<and> covers (ranges_of (add_page_to_donated_range d b g) b2) x)"
  proof (intro allI impI)
    fix b1 b2 :: domainid_t and x :: u64 assume ne: "b1 \<noteq> b2"
    show "\<not> (covers (ranges_of (add_page_to_donated_range d b g) b1) x
              \<and> covers (ranges_of (add_page_to_donated_range d b g) b2) x)"
      using ne dis other [of x b1] other [of x b2] cv [of x]
      by (auto simp: ranges_of_add)
  qed
qed

lemma inv_remove:
  assumes wf: "tracker_wf d"
    and dis: "\<forall>b1 b2 x. b1 \<noteq> b2 \<longrightarrow> \<not> (covers (ranges_of d b1) x \<and> covers (ranges_of d b2) x)"
    and g: "page_ok g"
  shows "tracker_wf (remove_page_from_donated_range d b g)"
    and "\<forall>b1 b2 x. b1 \<noteq> b2 \<longrightarrow>
           \<not> (covers (ranges_of (remove_page_from_donated_range d b g) b1) x
              \<and> covers (ranges_of (remove_page_from_donated_range d b g) b2) x)"
proof -
  have wfr: "range_set_wf (ranges_of d b)" using wf by (simp add: tracker_wf_iff)
  show "tracker_wf (remove_page_from_donated_range d b g)" using tracker_wf_remove [OF wf g] .
  have cv: "covers (remove_page_from_range_set (ranges_of d b) g) x \<Longrightarrow> covers (ranges_of d b) x"
    for x using remove_props [OF wfr g, of x] by blast
  show "\<forall>b1 b2 x. b1 \<noteq> b2 \<longrightarrow>
           \<not> (covers (ranges_of (remove_page_from_donated_range d b g) b1) x
              \<and> covers (ranges_of (remove_page_from_donated_range d b g) b2) x)"
  proof (intro allI impI)
    fix b1 b2 :: domainid_t and x :: u64 assume ne: "b1 \<noteq> b2"
    show "\<not> (covers (ranges_of (remove_page_from_donated_range d b g) b1) x
              \<and> covers (ranges_of (remove_page_from_donated_range d b g) b2) x)"
      using ne dis cv [of x] by (auto simp: ranges_of_remove)
  qed
qed

lemma inv_run:
  assumes "checked d ops" and "tracker_wf d"
    and "\<forall>b1 b2 x. b1 \<noteq> b2 \<longrightarrow> \<not> (covers (ranges_of d b1) x \<and> covers (ranges_of d b2) x)"
  shows "tracker_wf (run_ops d ops)
       \<and> (\<forall>b1 b2 x. b1 \<noteq> b2 \<longrightarrow>
            \<not> (covers (ranges_of (run_ops d ops) b1) x \<and> covers (ranges_of (run_ops d ops) b2) x))"
  using assms
proof (induction ops arbitrary: d)
  case Nil
  then show ?case by simp
next
  case (Cons opn ops)
  show ?case
  proof (cases opn)
    case (Insert b g)
    have g: "page_ok g" and na: "\<not> page_already_donated_any d g"
      and ch: "checked (add_page_to_donated_range d b g) ops"
      using Cons.prems(1) Insert by simp_all
    note i = inv_insert [OF Cons.prems(2,3) g na, of b]
    show ?thesis using Cons.IH [OF ch i] Insert by simp
  next
    case (Remove b g)
    have g: "page_ok g" and ch: "checked (remove_page_from_donated_range d b g) ops"
      using Cons.prems(1) Remove by simp_all
    note i = inv_remove [OF Cons.prems(2,3) g, of b]
    show ?thesis using Cons.IH [OF ch i] Remove by simp
  qed
qed

lemma checked_take: "checked d ops \<Longrightarrow> checked d (take n ops)"
proof (induction ops arbitrary: d n)
  case Nil
  then show ?case by simp
next
  case (Cons opn ops)
  show ?case
  proof (cases n)
    case 0
    then show ?thesis by simp
  next
    case (Suc k)
    show ?thesis
    proof (cases opn)
      case (Insert b g)
      then show ?thesis using Cons.prems Cons.IH [of "apply_op d opn" k] Suc by simp
    next
      case (Remove b g)
      then show ?thesis using Cons.prems Cons.IH [of "apply_op d opn" k] Suc by simp
    qed
  qed
qed

text \<open>Claim C3, as stated, fails: the tracker's insert does not look for the page first.
  Inserting the same page for two borrowers records it in an interval of each, and
  inserting a page that a borrower's interval already holds records it in a second
  interval of the same borrower.\<close>

theorem double_donation_counterexample:
  "holder_count (run_ops (blank_domain 0) [Insert 1 0x1000, Insert 2 0x1000]) 1 0x1000 = 1
   \<and> holder_count (run_ops (blank_domain 0) [Insert 1 0x1000, Insert 2 0x1000]) 2 0x1000 = 1
   \<and> holder_count (run_ops (blank_domain 0)
        [Insert 1 0x1000, Insert 1 0x2000, Insert 1 0x2000]) 1 0x2000 = 2"
  by (simp add: holder_count_def holders_def blank_domain_def add_page_to_donated_range_def
      add_page_to_range_set_def emplace_def lower_bound_def extend_page_range_above_def
      extend_page_range_below_def contains_def limit_def contiguous_below_def
      contiguous_above_def UV_PAGE_SIZE_def Let_def)

text \<open>Claim C3, amended. Start from the empty tracker and run any sequence of insert and
  remove operations on page addresses in which every inserted page is, when it is
  inserted, recorded for no borrower (the check \<open>page_already_donated(page_gpa)\<close>). Then
  at every point of the sequence every address belongs to at most one interval across
  all borrowers: at most one interval of each borrower holds it, and intervals holding
  it belong to one borrower.\<close>

theorem checked_tracker_no_double_donation:
  assumes empty: "m_donated_page_map d0 = Map.empty" and ch: "checked d0 ops"
  shows "(\<forall>b. holder_count (run_ops d0 (take n ops)) b x \<le> 1)
       \<and> (\<forall>b1 b2. 0 < holder_count (run_ops d0 (take n ops)) b1 x \<longrightarrow>
                   0 < holder_count (run_ops d0 (take n ops)) b2 x \<longrightarrow> b1 = b2)"
proof -
  let ?d = "run_ops d0 (take n ops)"
  have r0: "ranges_of d0 b = []" for b using empty by (simp add: ranges_of_def)
  have wf0: "tracker_wf d0" using empty by (simp add: tracker_wf_def)
  have dis0: "\<forall>b1 b2 x. b1 \<noteq> b2 \<longrightarrow> \<not> (covers (ranges_of d0 b1) x \<and> covers (ranges_of d0 b2) x)"
    by (simp add: r0)
  have inv: "tracker_wf ?d
       \<and> (\<forall>b1 b2 x. b1 \<noteq> b2 \<longrightarrow>
            \<not> (covers (ranges_of ?d b1) x \<and> covers (ranges_of ?d b2) x))"
    using checked_take [OF ch] wf0 dis0 by (rule inv_run)
  have one: "holder_count ?d b x \<le> 1" for b
    using inv holders_le_one [of "ranges_of ?d b" x]
    by (simp add: holder_count_ranges tracker_wf_iff)
  have two: "b1 = b2" if "0 < holder_count ?d b1 x" and "0 < holder_count ?d b2 x" for b1 b2
    using inv that by (auto simp: holder_count_ranges holders_covers)
  show ?thesis using one two by blast
qed

theorem checked_tracker_no_double_donation_witness:
  "holder_count (run_ops (blank_domain 0)
       (take 2 [Insert 1 0x1000, Insert 2 0x2000, Remove 1 0x1000])) 1 0x2000 \<le> 1
   \<and> holder_count (run_ops (blank_domain 0)
       (take 2 [Insert 1 0x1000, Insert 2 0x2000, Remove 1 0x1000])) 2 0x2000 \<le> 1"
proof -
  have h1: "m_donated_page_map (blank_domain 0) = Map.empty" by (simp add: blank_domain_def)
  have f1: "find_page_range [\<lparr>m_page_start = 0x1000, m_page_count = 1\<rparr>] 0x2000 = 1"
    by (simp add: find_page_range_def lower_bound_def contains_def limit_def UV_PAGE_SIZE_def)
  have h2: "checked (blank_domain 0) [Insert 1 0x1000, Insert 2 0x2000, Remove 1 0x1000]"
    by (simp add: page_ok_def page_already_donated_any_def blank_domain_def
        add_page_to_donated_range_def add_page_to_range_set_def emplace_def Let_def f1)
  show ?thesis
    using checked_tracker_no_double_donation [OF h1 h2, of 2 "0x2000"] by blast
qed

section \<open>Coalescing on insertion\<close>

lemma add_at:
  assumes A: "\<forall>a \<in> set xs. m_page_start a < g" and B: "\<forall>b \<in> set ys. g < m_page_start b"
  shows "add_page_to_range_set (xs @ ys) g =
    (if ys \<noteq> [] \<and> contiguous_above (hd ys) g
     then xs @ (hd ys)\<lparr>m_page_start := m_page_start (hd ys) - UV_PAGE_SIZE,
                         m_page_count := m_page_count (hd ys) + 1\<rparr> # tl ys
     else if xs \<noteq> [] \<and> contiguous_below (last xs) g
     then butlast xs @ (last xs)\<lparr>m_page_count := m_page_count (last xs) + 1\<rparr> # ys
     else xs @ \<lparr>m_page_start = g, m_page_count = 1\<rparr> # ys)"
proof (cases ys)
  case Nil
  note ysN = Nil
  show ?thesis
  proof (cases xs rule: rev_cases)
    case Nil
    then show ?thesis by (simp add: ysN add_empty)
  next
    case (snoc xs' q)
    have "\<forall>r \<in> set (xs' @ [q]). m_page_start r < g" using A snoc by simp
    from add_end [OF this] show ?thesis by (simp add: ysN snoc)
  qed
next
  case (Cons y ys')
  note ysC = Cons
  have By: "\<not> m_page_start y < g" using B Cons by auto
  have em: "emplace (xs @ y # ys') g 1 = xs @ \<lparr>m_page_start = g, m_page_count = 1\<rparr> # y # ys'"
    by (rule emplace_split) (use A B ysC in simp_all)
  show ?thesis
  proof (cases xs rule: rev_cases)
    case Nil
    show ?thesis using add_begin [OF By, of ys'] em by (simp add: ysC Nil)
  next
    case (snoc xs' q)
    have "\<forall>r \<in> set (xs' @ [q]). m_page_start r < g" using A snoc by simp
    from add_mid [OF this By, of ys'] show ?thesis using em by (simp add: ysC snoc)
  qed
qed

lemma add_alone:
  assumes "\<forall>a \<in> set xs. m_page_start a < g" and "\<forall>b \<in> set ys. g < m_page_start b"
    and "xs \<noteq> [] \<longrightarrow> \<not> contiguous_below (last xs) g"
    and "ys \<noteq> [] \<longrightarrow> \<not> contiguous_above (hd ys) g"
  shows "add_page_to_range_set (xs @ ys) g = xs @ \<lparr>m_page_start = g, m_page_count = 1\<rparr> # ys"
  using add_at [OF assms(1,2)] assms(3,4) by auto

lemma add_up:
  assumes "\<forall>a \<in> set xs. m_page_start a < g" and "m_page_start m < g"
    and "\<forall>b \<in> set ys. g < m_page_start b" and "contiguous_below m g"
    and "ys \<noteq> [] \<longrightarrow> \<not> contiguous_above (hd ys) g"
  shows "add_page_to_range_set (xs @ m # ys) g
           = xs @ m\<lparr>m_page_count := m_page_count m + 1\<rparr> # ys"
proof -
  have "\<forall>a \<in> set (xs @ [m]). m_page_start a < g" using assms(1,2) by simp
  from add_at [OF this assms(3)] show ?thesis using assms(4,5) by auto
qed

lemma add_down:
  assumes "\<forall>a \<in> set xs. m_page_start a < g" and "g < m_page_start m"
    and "\<forall>b \<in> set ys. g < m_page_start b" and "contiguous_above m g"
  shows "add_page_to_range_set (xs @ m # ys) g
           = xs @ m\<lparr>m_page_start := m_page_start m - UV_PAGE_SIZE,
                     m_page_count := m_page_count m + 1\<rparr> # ys"
proof -
  have "\<forall>b \<in> set (m # ys). g < m_page_start b" using assms(2,3) by simp
  from add_at [OF assms(1) this] show ?thesis using assms(4) by auto
qed

lemma three_pages:
  assumes wf: "range_set_wf rs" and p: "page_ok p" and top: "unat p + 3 * 4096 < 2 ^ 64"
    and iso: "\<forall>r \<in> set rs. \<forall>g \<in> {p, p + UV_PAGE_SIZE, p + 2 * UV_PAGE_SIZE}.
                \<not> contains r g \<and> \<not> contiguous_below r g \<and> \<not> contiguous_above r g"
    and xs: "xs = takeWhile (\<lambda>r. m_page_start r < p) rs"
    and ys: "ys = dropWhile (\<lambda>r. m_page_start r < p) rs"
    and p1: "p1 = p + UV_PAGE_SIZE" and p2: "p2 = p + 2 * UV_PAGE_SIZE"
  shows "add_page_to_range_set (add_page_to_range_set (add_page_to_range_set rs p) p1) p2
           = xs @ \<lparr>m_page_start = p, m_page_count = 3\<rparr> # ys"
    and "add_page_to_range_set (add_page_to_range_set (add_page_to_range_set rs p1) p) p2
           = xs @ \<lparr>m_page_start = p, m_page_count = 3\<rparr> # ys"
    and "add_page_to_range_set (add_page_to_range_set (add_page_to_range_set rs p1) p2) p
           = xs @ \<lparr>m_page_start = p, m_page_count = 3\<rparr> # ys"
    and "add_page_to_range_set (add_page_to_range_set (add_page_to_range_set rs p2) p1) p
           = xs @ \<lparr>m_page_start = p, m_page_count = 3\<rparr> # ys"
    and "add_page_to_range_set (add_page_to_range_set (add_page_to_range_set rs p) p2) p1
           = xs @ \<lparr>m_page_start = p, m_page_count = 1\<rparr>
                # \<lparr>m_page_start = p1, m_page_count = 2\<rparr> # ys"
    and "add_page_to_range_set (add_page_to_range_set (add_page_to_range_set rs p2) p) p1
           = xs @ \<lparr>m_page_start = p, m_page_count = 1\<rparr>
                # \<lparr>m_page_start = p1, m_page_count = 2\<rparr> # ys"
proof -
  have rs: "rs = xs @ ys" by (simp add: xs ys)
  have u1: "unat p1 = unat p + 4096" using top by (simp add: p1 unat_add_page)
  have "unat (p1 + UV_PAGE_SIZE) = unat p1 + 4096" using top u1 by (simp add: unat_add_page)
  moreover have "p1 + UV_PAGE_SIZE = p2" by (simp add: p1 p2)
  ultimately have u2: "unat p2 = unat p + 8192" using u1 by simp
  have g1: "page_ok p1" and g2: "page_ok p2" using p top u1 u2 by (simp_all add: page_ok_def)
  have lt: "p < p1" "p < p2" "p1 < p2" using u1 u2 by (simp_all add: word_less_nat_alt)
  have xss: "set xs \<subseteq> set rs" and yss: "set ys \<subseteq> set rs" by (auto simp: rs)
  have A0: "\<forall>a \<in> set xs. m_page_start a < p"
    unfolding xs by (blast dest: set_takeWhileD)
  have B0: "\<forall>b \<in> set ys. \<not> m_page_start b < p"
    unfolding ys using dropWhile_sorted [OF wf_starts_sorted [OF wf]] .
  have A: "\<forall>a \<in> set xs. m_page_start a < p \<and> m_page_start a < p1 \<and> m_page_start a < p2"
    using A0 lt by force
  have B: "\<forall>b \<in> set ys. p < m_page_start b \<and> p1 < m_page_start b \<and> p2 < m_page_start b"
  proof
    fix b assume b: "b \<in> set ys"
    then have br: "b \<in> set rs" using yss by blast
    have ok: "range_ok b" using wf_range_ok [OF wf br] .
    have nc: "\<not> contains b p" "\<not> contains b p1" "\<not> contains b p2"
      using iso br by (simp_all add: p1 p2)
    have 0: "unat p + 4096 \<le> lo b" using above_page [OF ok p _ nc(1)] B0 b by blast
    then have "\<not> m_page_start b < p1" by (simp add: start_less_nat u1)
    from above_page [OF ok g1 this nc(2)] have 1: "unat p1 + 4096 \<le> lo b" .
    then have "\<not> m_page_start b < p2" by (simp add: start_less_nat u1 u2)
    from above_page [OF ok g2 this nc(3)] have 2: "unat p2 + 4096 \<le> lo b" .
    show "p < m_page_start b \<and> p1 < m_page_start b \<and> p2 < m_page_start b"
      using 0 1 2 u1 u2 by (simp add: word_less_nat_alt lo_def)
  qed
  have ncb: "xs \<noteq> [] \<longrightarrow> \<not> contiguous_below (last xs) p \<and> \<not> contiguous_below (last xs) p1
      \<and> \<not> contiguous_below (last xs) p2"
  proof
    assume "xs \<noteq> []"
    then have "last xs \<in> set xs" by (rule last_in_set)
    then have "last xs \<in> set rs" using xss by blast
    with iso show "\<not> contiguous_below (last xs) p \<and> \<not> contiguous_below (last xs) p1
      \<and> \<not> contiguous_below (last xs) p2" by (simp add: p1 p2)
  qed
  have nca: "ys \<noteq> [] \<longrightarrow> \<not> contiguous_above (hd ys) p \<and> \<not> contiguous_above (hd ys) p1
      \<and> \<not> contiguous_above (hd ys) p2"
  proof
    assume "ys \<noteq> []"
    then have "hd ys \<in> set ys" by (rule hd_in_set)
    then have "hd ys \<in> set rs" using yss by blast
    with iso show "\<not> contiguous_above (hd ys) p \<and> \<not> contiguous_above (hd ys) p1
      \<and> \<not> contiguous_above (hd ys) p2" by (simp add: p1 p2)
  qed
  note cdefs = contiguous_below_def contiguous_above_def limit_def p1 p2 UV_PAGE_SIZE_def
  have s_p: "add_page_to_range_set rs p = xs @ \<lparr>m_page_start = p, m_page_count = 1\<rparr> # ys"
    unfolding rs by (rule add_alone) (use A B ncb nca in auto)
  have s_p1: "add_page_to_range_set rs p1 = xs @ \<lparr>m_page_start = p1, m_page_count = 1\<rparr> # ys"
    unfolding rs by (rule add_alone) (use A B ncb nca in auto)
  have s_p2: "add_page_to_range_set rs p2 = xs @ \<lparr>m_page_start = p2, m_page_count = 1\<rparr> # ys"
    unfolding rs by (rule add_alone) (use A B ncb nca in auto)
  have up1: "add_page_to_range_set (xs @ \<lparr>m_page_start = p, m_page_count = 1\<rparr> # ys) p1
      = xs @ \<lparr>m_page_start = p, m_page_count = 2\<rparr> # ys"
    using add_up [of xs p1 "\<lparr>m_page_start = p, m_page_count = 1\<rparr>" ys] A B nca lt
    by (simp add: cdefs)
  have up2: "add_page_to_range_set (xs @ \<lparr>m_page_start = p, m_page_count = 2\<rparr> # ys) p2
      = xs @ \<lparr>m_page_start = p, m_page_count = 3\<rparr> # ys"
    using add_up [of xs p2 "\<lparr>m_page_start = p, m_page_count = 2\<rparr>" ys] A B nca lt
    by (simp add: cdefs)
  have up3: "add_page_to_range_set (xs @ \<lparr>m_page_start = p1, m_page_count = 1\<rparr> # ys) p2
      = xs @ \<lparr>m_page_start = p1, m_page_count = 2\<rparr> # ys"
    using add_up [of xs p2 "\<lparr>m_page_start = p1, m_page_count = 1\<rparr>" ys] A B nca lt
    by (simp add: cdefs)
  have dn1: "add_page_to_range_set (xs @ \<lparr>m_page_start = p1, m_page_count = 1\<rparr> # ys) p
      = xs @ \<lparr>m_page_start = p, m_page_count = 2\<rparr> # ys"
    using add_down [of xs p "\<lparr>m_page_start = p1, m_page_count = 1\<rparr>" ys] A B lt
    by (simp add: cdefs)
  have dn2: "add_page_to_range_set (xs @ \<lparr>m_page_start = p1, m_page_count = 2\<rparr> # ys) p
      = xs @ \<lparr>m_page_start = p, m_page_count = 3\<rparr> # ys"
    using add_down [of xs p "\<lparr>m_page_start = p1, m_page_count = 2\<rparr>" ys] A B lt
    by (simp add: cdefs)
  have dn3: "add_page_to_range_set (xs @ \<lparr>m_page_start = p2, m_page_count = 1\<rparr> # ys) p1
      = xs @ \<lparr>m_page_start = p1, m_page_count = 2\<rparr> # ys"
    using add_down [of xs p1 "\<lparr>m_page_start = p2, m_page_count = 1\<rparr>" ys] A B lt
    by (simp add: cdefs)
  have al1: "add_page_to_range_set (xs @ \<lparr>m_page_start = p, m_page_count = 1\<rparr> # ys) p2
      = xs @ \<lparr>m_page_start = p, m_page_count = 1\<rparr> # \<lparr>m_page_start = p2, m_page_count = 1\<rparr> # ys"
    using add_alone [of "xs @ [\<lparr>m_page_start = p, m_page_count = 1\<rparr>]" p2 ys] A B nca lt
    by (simp add: cdefs)
  have al2: "add_page_to_range_set (xs @ \<lparr>m_page_start = p2, m_page_count = 1\<rparr> # ys) p
      = xs @ \<lparr>m_page_start = p, m_page_count = 1\<rparr> # \<lparr>m_page_start = p2, m_page_count = 1\<rparr> # ys"
    using add_alone [of xs p "\<lparr>m_page_start = p2, m_page_count = 1\<rparr> # ys"] A B ncb lt
    by (simp add: cdefs)
  have bad: "add_page_to_range_set
        (xs @ \<lparr>m_page_start = p, m_page_count = 1\<rparr> # \<lparr>m_page_start = p2, m_page_count = 1\<rparr> # ys) p1
      = xs @ \<lparr>m_page_start = p, m_page_count = 1\<rparr> # \<lparr>m_page_start = p1, m_page_count = 2\<rparr> # ys"
    using add_down [of "xs @ [\<lparr>m_page_start = p, m_page_count = 1\<rparr>]" p1
        "\<lparr>m_page_start = p2, m_page_count = 1\<rparr>" ys] A B lt
    by (simp add: cdefs)
  show "add_page_to_range_set (add_page_to_range_set (add_page_to_range_set rs p) p1) p2
           = xs @ \<lparr>m_page_start = p, m_page_count = 3\<rparr> # ys"
    by (simp only: s_p up1 up2)
  show "add_page_to_range_set (add_page_to_range_set (add_page_to_range_set rs p1) p) p2
           = xs @ \<lparr>m_page_start = p, m_page_count = 3\<rparr> # ys"
    by (simp only: s_p1 dn1 up2)
  show "add_page_to_range_set (add_page_to_range_set (add_page_to_range_set rs p1) p2) p
           = xs @ \<lparr>m_page_start = p, m_page_count = 3\<rparr> # ys"
    by (simp only: s_p1 up3 dn2)
  show "add_page_to_range_set (add_page_to_range_set (add_page_to_range_set rs p2) p1) p
           = xs @ \<lparr>m_page_start = p, m_page_count = 3\<rparr> # ys"
    by (simp only: s_p2 dn3 dn2)
  show "add_page_to_range_set (add_page_to_range_set (add_page_to_range_set rs p) p2) p1
           = xs @ \<lparr>m_page_start = p, m_page_count = 1\<rparr>
                # \<lparr>m_page_start = p1, m_page_count = 2\<rparr> # ys"
    by (simp only: s_p al1 bad)
  show "add_page_to_range_set (add_page_to_range_set (add_page_to_range_set rs p2) p) p1
           = xs @ \<lparr>m_page_start = p, m_page_count = 1\<rparr>
                # \<lparr>m_page_start = p1, m_page_count = 2\<rparr> # ys"
    by (simp only: s_p2 al2 bad)
qed

text \<open>Claim C1, as stated, fails when the middle page is inserted last: with \<open>p\<close> and
  \<open>p + 2\<close> recorded as two intervals, inserting \<open>p + 1\<close> extends the upper interval
  downward and returns, so the set holds the two adjacent intervals \<open>{p, 1}\<close> and
  \<open>{p + 1, 2}\<close> and not the single interval \<open>{p, 3}\<close>.\<close>

theorem middle_page_last_counterexample:
  "ranges_of (add_page_to_donated_range (add_page_to_donated_range
       (add_page_to_donated_range (blank_domain 0) 1 0x1000) 1 0x3000) 1 0x2000) 1
     = [\<lparr>m_page_start = 0x1000, m_page_count = 1\<rparr>, \<lparr>m_page_start = 0x2000, m_page_count = 2\<rparr>]
   \<and> ranges_of (add_page_to_donated_range (add_page_to_donated_range
       (add_page_to_donated_range (blank_domain 0) 1 0x1000) 1 0x3000) 1 0x2000) 1
     \<noteq> [\<lparr>m_page_start = 0x1000, m_page_count = 3\<rparr>]
   \<and> contiguous_below \<lparr>m_page_start = 0x1000, m_page_count = 1\<rparr>
       (m_page_start \<lparr>m_page_start = 0x2000, m_page_count = 2\<rparr>)"
proof -
  have r0: "ranges_of (blank_domain 0) 1 = []"
    by (simp add: ranges_of_def blank_domain_def)
  show ?thesis
    by (simp add: ranges_of_add r0 add_page_to_range_set_def
        emplace_def lower_bound_def extend_page_range_above_def extend_page_range_below_def
        limit_def contiguous_below_def contiguous_above_def UV_PAGE_SIZE_def Let_def)
qed

text \<open>Claim C1, amended. Let \<open>p\<close> be a page address with three pages below the top of the
  address space, and let the borrower's interval set be well formed and hold no interval
  that contains or is adjacent to \<open>p\<close>, \<open>p + 1\<close> or \<open>p + 2\<close>. Inserting the three pages in
  any of the four orders that do not end with the middle page \<open>p + 1\<close> adds exactly the one
  interval \<open>{p, 3}\<close> to the set. In the two orders that end with \<open>p + 1\<close> the insert finds
  the upper neighbour adjacent, extends it downward and does not look at the lower
  neighbour: the set gains the two adjacent intervals \<open>{p, 1}\<close> and \<open>{p + 1, 2}\<close>.\<close>

theorem coalescing_by_insertion_order:
  assumes wf: "range_set_wf (ranges_of d b)" and p: "page_ok p"
    and top: "unat p + 3 * 4096 < 2 ^ 64"
    and iso: "\<forall>r \<in> set (ranges_of d b). \<forall>g \<in> {p, p + UV_PAGE_SIZE, p + 2 * UV_PAGE_SIZE}.
                \<not> contains r g \<and> \<not> contiguous_below r g \<and> \<not> contiguous_above r g"
  shows "let ins = (\<lambda>d g. add_page_to_donated_range d b g);
             p1 = p + UV_PAGE_SIZE;
             p2 = p + 2 * UV_PAGE_SIZE;
             xs = takeWhile (\<lambda>r. m_page_start r < p) (ranges_of d b);
             ys = dropWhile (\<lambda>r. m_page_start r < p) (ranges_of d b);
             one = xs @ \<lparr>m_page_start = p, m_page_count = 3\<rparr> # ys;
             two = xs @ \<lparr>m_page_start = p, m_page_count = 1\<rparr>
                      # \<lparr>m_page_start = p1, m_page_count = 2\<rparr> # ys
         in ranges_of (ins (ins (ins d p) p1) p2) b = one
          \<and> ranges_of (ins (ins (ins d p1) p) p2) b = one
          \<and> ranges_of (ins (ins (ins d p1) p2) p) b = one
          \<and> ranges_of (ins (ins (ins d p2) p1) p) b = one
          \<and> ranges_of (ins (ins (ins d p) p2) p1) b = two
          \<and> ranges_of (ins (ins (ins d p2) p) p1) b = two"
  using three_pages [OF wf p top iso refl refl refl refl]
  by (simp add: Let_def ranges_of_add)

theorem coalescing_by_insertion_order_witness:
  "ranges_of (add_page_to_donated_range (add_page_to_donated_range (add_page_to_donated_range
       (lender_domain [\<lparr>m_page_start = 0x10000, m_page_count = 2\<rparr>]) 1 0x3000) 1 0x2000) 1 0x1000) 1
     = [\<lparr>m_page_start = 0x1000, m_page_count = 3\<rparr>, \<lparr>m_page_start = 0x10000, m_page_count = 2\<rparr>]
   \<and> ranges_of (add_page_to_donated_range (add_page_to_donated_range (add_page_to_donated_range
       (lender_domain [\<lparr>m_page_start = 0x10000, m_page_count = 2\<rparr>]) 1 0x3000) 1 0x1000) 1 0x2000) 1
     = [\<lparr>m_page_start = 0x1000, m_page_count = 1\<rparr>, \<lparr>m_page_start = 0x2000, m_page_count = 2\<rparr>,
        \<lparr>m_page_start = 0x10000, m_page_count = 2\<rparr>]"
proof -
  let ?d = "lender_domain [\<lparr>m_page_start = 0x10000, m_page_count = 2\<rparr>]"
  have r: "ranges_of ?d 1 = [\<lparr>m_page_start = 0x10000, m_page_count = 2\<rparr>]"
    by (simp add: ranges_of_def lender_domain_def)
  have h1: "range_set_wf (ranges_of ?d 1)"
    by (simp add: r range_set_wf_def range_ok_def lo_def hi_def)
  have h2: "page_ok 0x1000" by (simp add: page_ok_def)
  have h3: "unat (0x1000 :: u64) + 3 * 4096 < 2 ^ 64" by simp
  have h4: "\<forall>r \<in> set (ranges_of ?d 1).
      \<forall>g \<in> {0x1000, 0x1000 + UV_PAGE_SIZE, 0x1000 + 2 * UV_PAGE_SIZE}.
        \<not> contains r g \<and> \<not> contiguous_below r g \<and> \<not> contiguous_above r g"
    by (simp add: r contains_def contiguous_below_def contiguous_above_def limit_def
        UV_PAGE_SIZE_def)
  show ?thesis
    using coalescing_by_insertion_order [OF h1 h2 h3 h4]
    by (simp add: Let_def r UV_PAGE_SIZE_def)
qed

section \<open>Guards of the reclaim and donation operations\<close>

text \<open>Claim C5. Whenever the Domain Registry still finds the borrower domain,
  \<open>reclaim_root_page\<close> and \<open>reclaim_root_pages\<close> return failure, whatever the tracker
  holds, and the domain (tracker and mappings) is left as it was.\<close>

theorem reclaim_fails_while_borrower_live:
  assumes "get_domain guest_domid \<noteq> None"
  shows "reclaim_root_page get_domain this guest_domid root_gpa = (FAILURE, this)
       \<and> reclaim_root_pages get_domain this guest_domid = Some (FAILURE, this)"
  using assms by (simp add: reclaim_root_page_def reclaim_root_pages_def)

theorem reclaim_fails_while_borrower_live_witness:
  "reclaim_root_page (\<lambda>i. if i = 1 then Some (blank_domain 1) else None) (blank_domain 0) 1 0x5000
     = (FAILURE, blank_domain 0)
   \<and> reclaim_root_pages (\<lambda>i. if i = 1 then Some (blank_domain 1) else None) (blank_domain 0) 1
     = Some (FAILURE, blank_domain 0)"
  using reclaim_fails_while_borrower_live
    [where get_domain = "\<lambda>i. if i = 1 then Some (blank_domain 1) else None" and guest_domid = 1
       and this = "blank_domain 0" and root_gpa = "0x5000"]
  by simp

text \<open>Claim C6, as stated, fails for \<open>donate_root_page\<close>: on a domain whose identifier is
  not 0 the operation is aborted by its contract (\<open>expects\<close>) and returns no failure
  code.\<close>

theorem donate_non_root_counterexample:
  "fst (donate_root_page (identity_vcpu SUCCESS) (blank_domain 1) 0x5000 (blank_domain 2) 0x5000
          read_write_execute write_back) = Contract_violation
   \<and> fst (donate_root_page (identity_vcpu SUCCESS) (blank_domain 1) 0x5000 (blank_domain 2) 0x5000
          read_write_execute write_back) \<noteq> Returned FAILURE"
  by (simp add: donate_root_page_def blank_domain_def)

text \<open>Claim C6, amended. On a domain whose identifier is not 0, \<open>reclaim_root_page\<close> and
  \<open>reclaim_root_pages\<close> return failure at once and \<open>donate_root_page\<close> is aborted by its
  contract; in all three cases the tracker, the mappings of both domains and the
  processor are left as they were.\<close>

theorem non_root_operations_fail:
  assumes "dom_id this \<noteq> 0"
  shows "reclaim_root_page get_domain this guest_domid root_gpa = (FAILURE, this)
       \<and> reclaim_root_pages get_domain this guest_domid = Some (FAILURE, this)
       \<and> donate_root_page root this root_gpa guest_dom guest_gpa perm mtype
           = (Contract_violation, this, guest_dom, root)"
  using assms by (simp add: reclaim_root_page_def reclaim_root_pages_def donate_root_page_def)

theorem non_root_operations_fail_witness:
  "reclaim_root_page (\<lambda>i. None) (blank_domain 1) 2 0x5000 = (FAILURE, blank_domain 1)
   \<and> reclaim_root_pages (\<lambda>i. None) (blank_domain 1) 2 = Some (FAILURE, blank_domain 1)
   \<and> donate_root_page (identity_vcpu SUCCESS) (blank_domain 1) 0x5000 (blank_domain 2) 0x7000
        read_write write_back
       = (Contract_violation, blank_domain 1, blank_domain 2, identity_vcpu SUCCESS)"
proof -
  have h: "dom_id (blank_domain 1) \<noteq> 0" by (simp add: blank_domain_def)
  show ?thesis
    using non_root_operations_fail [OF h, where get_domain = "\<lambda>i. None" and guest_domid = 2
        and root_gpa = "0x5000" and root = "identity_vcpu SUCCESS" and guest_dom = "blank_domain 2"
        and guest_gpa = "0x7000" and perm = read_write and mtype = write_back]
    by simp
qed

text \<open>Claim C7. When the page is not yet donated to the borrower, the resolver has given
  the identity translation and \<open>begin_shootdown\<close> answers that another shootdown is in
  flight, \<open>donate_root_page\<close> returns \<open>AGAIN\<close>, a status different from failure and from
  success, and nothing has been changed: the root domain (its address-translation map and
  its tracker) and the guest domain are as before, and the only call made on the
  processor is the refused \<open>begin_shootdown\<close>.\<close>

theorem donate_again_commits_nothing:
  assumes "dom_id this = 0"
    and "\<not> page_already_donated this (dom_id guest_dom) (upper root_gpa pt_from)"
    and "gpa_to_hpa root (upper root_gpa pt_from) = Some (upper root_gpa pt_from, from)"
    and "shootdown_rc root = AGAIN"
  shows "donate_root_page root this root_gpa guest_dom guest_gpa perm mtype
           = (Returned AGAIN, this, guest_dom, root\<lparr>calls := calls root @ [Begin_shootdown]\<rparr>)
       \<and> Returned AGAIN \<noteq> Returned FAILURE \<and> Returned AGAIN \<noteq> Returned SUCCESS"
  using assms by (simp add: donate_root_page_def begin_shootdown_def)

theorem donate_again_commits_nothing_witness:
  "donate_root_page (identity_vcpu AGAIN) (blank_domain 0) 0x5123 (blank_domain 1) 0x7000
       read_write write_back
     = (Returned AGAIN, blank_domain 0, blank_domain 1,
        (identity_vcpu AGAIN)\<lparr>calls := [Begin_shootdown]\<rparr>)"
proof -
  have h1: "dom_id (blank_domain 0) = 0" by (simp add: blank_domain_def)
  have h2: "\<not> page_already_donated (blank_domain 0) (dom_id (blank_domain 1)) (upper 0x5123 pt_from)"
    by (simp add: page_already_donated_def blank_domain_def)
  have h3: "gpa_to_hpa (identity_vcpu AGAIN) (upper 0x5123 pt_from)
              = Some (upper 0x5123 pt_from, pt_from)"
    by (simp add: identity_vcpu_def)
  have h4: "shootdown_rc (identity_vcpu AGAIN) = AGAIN" by (simp add: identity_vcpu_def)
  show ?thesis
    using donate_again_commits_nothing [OF h1 h2 h3 h4, where guest_gpa = "0x7000"
        and perm = read_write and mtype = write_back]
    by (simp add: identity_vcpu_def)
qed
end
